theory Spec2Isabelle
  imports Complex_Main "HOL-Library.Word"
begin

unbundle bit_operations_syntax

section \<open>Machine types of the generator\<close>

text \<open>
  The program is \<^verbatim>\<open>cmd/modbusgenerator/main.go\<close>. Its values are Go's \<^verbatim>\<open>byte\<close>,
  \<^verbatim>\<open>uint16\<close>, \<^verbatim>\<open>uint32\<close>, \<^verbatim>\<open>int\<close> and \<^verbatim>\<open>float64\<close>.
  The unsigned types are words. Go's \<^verbatim>\<open>int\<close> is taken at 64 bits (the README builds
  for amd64) and is an \<open>int\<close> whose sums and differences are wrapped by \<open>wrap64\<close>.
  A \<^verbatim>\<open>float64\<close> that the JSON decoder produced is a finite number; the model takes the
  real number it denotes.
\<close>

type_synonym byte = "8 word"
type_synonym uint16 = "16 word"
type_synonym uint32 = "32 word"
type_synonym float64 = real

definition wrap64 :: "int \<Rightarrow> int" where
  "wrap64 k = signed_take_bit 63 k"

text \<open>Conversion of a floating-point number to an integer discards the fraction.\<close>

definition trunc :: "float64 \<Rightarrow> int" where
  "trunc x = (if 0 \<le> x then \<lfloor>x\<rfloor> else \<lceil>x\<rceil>)"

text \<open>
  \<^verbatim>\<open>int(x)\<close>. Where the truncation does not fit 64 bits Go leaves the result to the
  implementation; amd64 yields the smallest integer, and so does the model.
\<close>

definition go_int :: "float64 \<Rightarrow> int" where
  "go_int x = (let t = trunc x in if - (2 ^ 63) \<le> t \<and> t < 2 ^ 63 then t else - (2 ^ 63))"

text \<open>
  \<^verbatim>\<open>uint16(x)\<close>. For a truncation within 0..65535 the result is that number; outside,
  Go leaves it to the implementation. amd64 converts to a 32-bit integer and keeps its low
  16 bits: a truncation that fits 32 bits gives its low 16 bits, any other gives 0.
\<close>

definition go_uint16 :: "float64 \<Rightarrow> uint16" where
  "go_uint16 x = (let t = trunc x in if - (2 ^ 31) \<le> t \<and> t < 2 ^ 31 then word_of_int t else 0)"

section \<open>Byte helpers\<close>

text \<open>
  \<^verbatim>\<open>binary.LittleEndian.PutUint16(b, v)\<close> stores \<^verbatim>\<open>byte(v)\<close> in \<^verbatim>\<open>b[0]\<close> and
  \<^verbatim>\<open>byte(v >> 8)\<close> in \<^verbatim>\<open>b[1]\<close>; \<^verbatim>\<open>binary.BigEndian.Uint16(b)\<close> is
  \<^verbatim>\<open>uint16(b[1]) | uint16(b[0])<<8\<close>.
\<close>

definition LittleEndian_PutUint16 :: "uint16 \<Rightarrow> byte list" where
  "LittleEndian_PutUint16 v = [ucast v, ucast (drop_bit 8 v)]"

definition BigEndian_Uint16 :: "byte list \<Rightarrow> uint16" where
  "BigEndian_Uint16 b = ucast (b ! 1) OR push_bit 8 (ucast (b ! 0))"

text \<open>\<^verbatim>\<open>uint16ToLittleEndian\<close> (its two \<^verbatim>\<open>Printf\<close> calls only print).\<close>

definition uint16ToLittleEndian :: "uint16 \<Rightarrow> uint16" where
  "uint16ToLittleEndian u = (let b = LittleEndian_PutUint16 u; v = BigEndian_Uint16 b in v)"

definition uint16ToByteSlice :: "uint16 \<Rightarrow> byte list" where
  "uint16ToByteSlice u = (let u1 = ucast (drop_bit 8 u); u2 = ucast (u AND 0xFF) in [] @ [u1, u2])"

section \<open>Encoders\<close>

text \<open>
  The six encoder structs have the same three fields; the interface value \<^verbatim>\<open>encoder\<close>
  is one of the six, told apart by its dynamic type.
\<close>

record descriptor =
  Type :: string
  Number :: float64
  RegAddr :: float64

datatype encoder =
    float32LittleWordBigEndian descriptor
  | float32BigWordBigEndian descriptor
  | float32LittleWordLittleEndian descriptor
  | float32BigWordLittleEndian descriptor
  | wordInt16BigEndian descriptor
  | wordInt16LittleEndian descriptor

text \<open>
  \<open>Encode\<close> takes as its first argument the function \<open>f32\<close> that stands for
  \<^verbatim>\<open>math.Float32bits(float32(x))\<close>: the rounding of a \<^verbatim>\<open>float64\<close> to single precision
  and its IEEE-754 bit pattern belong to the Go library and stay a parameter.
\<close>

fun Encode :: "(float64 \<Rightarrow> uint32) \<Rightarrow> encoder \<Rightarrow> uint16 list" where
  "Encode f32 (float32LittleWordBigEndian f) =
     (let n = f32 (Number f);
          v1 = (ucast (drop_bit 16 n AND 0xffff) :: uint16);
          v2 = (ucast (n AND 0xffff) :: uint16)
      in [v2, v1])"
| "Encode f32 (float32BigWordBigEndian f) =
     (let n = f32 (Number f);
          v1 = (ucast (drop_bit 16 n AND 0xffff) :: uint16);
          v2 = (ucast (n AND 0xffff) :: uint16)
      in [v1, v2])"
| "Encode f32 (float32LittleWordLittleEndian f) =
     (let n = f32 (Number f);
          v1 = (ucast (drop_bit 16 n AND 0xffff) :: uint16);
          v2 = (ucast (n AND 0xffff) :: uint16);
          v1 = uint16ToLittleEndian v1;
          v2 = uint16ToLittleEndian v2
      in [v2, v1])"
| "Encode f32 (float32BigWordLittleEndian f) =
     (let n = f32 (Number f);
          v1 = (ucast (drop_bit 16 n AND 0xffff) :: uint16);
          v2 = (ucast (n AND 0xffff) :: uint16);
          v1 = uint16ToLittleEndian v1;
          v2 = uint16ToLittleEndian v2
      in [v1, v2])"
| "Encode f32 (wordInt16BigEndian w) =
     (let vTmp = push_bit 8 (go_uint16 (Number w));
          v = vTmp OR 1
      in [v])"
| "Encode f32 (wordInt16LittleEndian w) =
     (let v = go_uint16 (Number w);
          v = uint16ToLittleEndian v
      in [v])"

fun Address :: "encoder \<Rightarrow> int" where
  "Address (float32LittleWordBigEndian f) = go_int (RegAddr f)"
| "Address (float32BigWordBigEndian f) = go_int (RegAddr f)"
| "Address (float32LittleWordLittleEndian f) = go_int (RegAddr f)"
| "Address (float32BigWordLittleEndian f) = go_int (RegAddr f)"
| "Address (wordInt16BigEndian f) = go_int (RegAddr f)"
| "Address (wordInt16LittleEndian f) = go_int (RegAddr f)"

subsection \<open>The formulas of the specification\<close>

text \<open>
  The specification describes the float codecs by three formulas on integers:
  \<open>high16 = bits >> 16\<close>, \<open>low16 = bits & 0xFFFF\<close> and
  \<open>swap(w) = (w << 8 | w >> 8) & 0xFFFF\<close>. They are written here as the
  specification has them, to be compared with \<open>Encode\<close>.
\<close>

definition high16 :: "uint32 \<Rightarrow> int" where
  "high16 bits = drop_bit 16 (uint bits)"

definition low16 :: "uint32 \<Rightarrow> int" where
  "low16 bits = uint bits AND 0xFFFF"

definition swap :: "int \<Rightarrow> int" where
  "swap w = (push_bit 8 w OR drop_bit 8 w) AND 0xFFFF"

text \<open>
  The inverse reassembly of the specification's round-trip law: undo the byte swap inside
  each word, undo the word order, and join the high and the low word into 32 bits.
\<close>

definition rejoin :: "uint16 \<Rightarrow> uint16 \<Rightarrow> uint32" where
  "rejoin hi lo = push_bit 16 (ucast hi) OR ucast lo"

definition unswap :: "uint16 \<Rightarrow> uint16" where
  "unswap w = word_of_int (swap (uint w))"

fun reassemble :: "encoder \<Rightarrow> uint16 list \<Rightarrow> uint32 option" where
  "reassemble (float32LittleWordBigEndian f) [a, b] = Some (rejoin b a)"
| "reassemble (float32BigWordBigEndian f) [a, b] = Some (rejoin a b)"
| "reassemble (float32LittleWordLittleEndian f) [a, b] = Some (rejoin (unswap b) (unswap a))"
| "reassemble (float32BigWordLittleEndian f) [a, b] = Some (rejoin (unswap a) (unswap b))"
| "reassemble _ _ = None"

section \<open>Failures\<close>

text \<open>
  \<^verbatim>\<open>setRegister\<close> returns an \<^verbatim>\<open>error\<close> built by \<^verbatim>\<open>fmt.Errorf\<close> from one
  of two texts: \<^verbatim>\<open>wrong increment of address in <name> register for address after <addr>\<close>
  and \<^verbatim>\<open>wrong file given: ...\<close>. Everything else that stops the program is a run-time
  panic of Go: a failed type assertion, a slice expression out of range, a method call on
  the nil interface.
\<close>

datatype error =
    WrongIncrement string int
  | WrongFile

datatype panic =
    TypeAssertion
  | SliceBounds
  | NilDereference

text \<open>
  The specification names the failures of placement \<open>AddressOutOfRange\<close>,
  \<open>OverlapOrNonMonotonicAddress\<close> (naming the address) and \<open>UnknownRegisterCategory\<close>.
  \<open>placementError\<close> reads an error of the code under these names: the wrong-increment
  error is the overlap error, the wrong-file error is the unknown category. No error of
  the code reads as \<open>AddressOutOfRange\<close>.
\<close>

datatype PlacementError =
    AddressOutOfRange
  | OverlapOrNonMonotonicAddress int
  | UnknownRegisterCategory

fun placementError :: "error \<Rightarrow> PlacementError" where
  "placementError (WrongIncrement name addr) = OverlapOrNonMonotonicAddress addr"
| "placementError WrongFile = UnknownRegisterCategory"

section \<open>The encoder factory\<close>

text \<open>
  A raw record is a \<^verbatim>\<open>map[string]interface{}\<close> filled by \<^verbatim>\<open>encoding/json\<close>; its
  values are nil, booleans, \<^verbatim>\<open>float64\<close> numbers, strings, arrays and objects.
\<close>

datatype jvalue =
    JNil
  | JBool bool
  | JFloat64 float64
  | JString string
  | JArray "jvalue list"
  | JObject "(string \<times> jvalue) list"

type_synonym rawRecord = "string \<rightharpoonup> jvalue"

text \<open>
  The type assertions \<^verbatim>\<open>m[k].(string)\<close> and \<^verbatim>\<open>m[k].(float64)\<close>: a missing key
  gives the nil interface, and the assertion panics on anything but the asserted type.
\<close>

fun assertString :: "jvalue option \<Rightarrow> panic + string" where
  "assertString (Some (JString s)) = Inr s"
| "assertString _ = Inl TypeAssertion"

fun assertFloat64 :: "jvalue option \<Rightarrow> panic + float64" where
  "assertFloat64 (Some (JFloat64 x)) = Inr x"
| "assertFloat64 _ = Inl TypeAssertion"

text \<open>The struct literal shared by the six constructor functions, fields in source order.\<close>

definition assertFields :: "rawRecord \<Rightarrow> panic + descriptor" where
  "assertFields m =
     (case assertString (m ''type'') of Inl p \<Rightarrow> Inl p | Inr t \<Rightarrow>
      case assertFloat64 (m ''number'') of Inl p \<Rightarrow> Inl p | Inr n \<Rightarrow>
      case assertFloat64 (m ''regAddr'') of Inl p \<Rightarrow> Inl p | Inr a \<Rightarrow>
      Inr \<lparr>Type = t, Number = n, RegAddr = a\<rparr>)"

definition NewFloat32LittleWordBigEndian :: "rawRecord \<Rightarrow> panic + encoder" where
  "NewFloat32LittleWordBigEndian m = map_sum id float32LittleWordBigEndian (assertFields m)"

definition NewFloat32BigWordBigEndian :: "rawRecord \<Rightarrow> panic + encoder" where
  "NewFloat32BigWordBigEndian m = map_sum id float32BigWordBigEndian (assertFields m)"

definition NewFloat32LittleWordLittleEndian :: "rawRecord \<Rightarrow> panic + encoder" where
  "NewFloat32LittleWordLittleEndian m = map_sum id float32LittleWordLittleEndian (assertFields m)"

definition NewFloat32BigWordLittleEndian :: "rawRecord \<Rightarrow> panic + encoder" where
  "NewFloat32BigWordLittleEndian m = map_sum id float32BigWordLittleEndian (assertFields m)"

definition NewWordInt16BigEndian :: "rawRecord \<Rightarrow> panic + encoder" where
  "NewWordInt16BigEndian m = map_sum id wordInt16BigEndian (assertFields m)"

definition NewWordInt16LittleEndian :: "rawRecord \<Rightarrow> panic + encoder" where
  "NewWordInt16LittleEndian m = map_sum id wordInt16LittleEndian (assertFields m)"

text \<open>
  \<^verbatim>\<open>NewEncoder\<close> returns an interface value and no error: \<open>None\<close> is the nil
  interface that the last line of the function returns.
\<close>

definition NewEncoder :: "rawRecord \<Rightarrow> panic + encoder option" where
  "NewEncoder m =
     (case assertString (m ''type'') of Inl p \<Rightarrow> Inl p | Inr t \<Rightarrow>
      if t = ''float32LittleWordBigEndian'' then map_sum id Some (NewFloat32LittleWordBigEndian m)
      else if t = ''float32BigWordBigEndian'' then map_sum id Some (NewFloat32BigWordBigEndian m)
      else if t = ''float32LittleWordLittleEndian'' then map_sum id Some (NewFloat32LittleWordLittleEndian m)
      else if t = ''float32BigWordLittleEndian'' then map_sum id Some (NewFloat32BigWordLittleEndian m)
      else if t = ''wordInt16BigEndian'' then map_sum id Some (NewWordInt16BigEndian m)
      else if t = ''wordInt16LittleEndian'' then map_sum id Some (NewWordInt16LittleEndian m)
      else Inr None)"

text \<open>The six strings of the switch, and the name of an encoder's dynamic type.\<close>

definition recognized :: "string list" where
  "recognized = [''float32LittleWordBigEndian'', ''float32BigWordBigEndian'',
     ''float32LittleWordLittleEndian'', ''float32BigWordLittleEndian'',
     ''wordInt16BigEndian'', ''wordInt16LittleEndian'']"

fun kindName :: "encoder \<Rightarrow> string" where
  "kindName (float32LittleWordBigEndian f) = ''float32LittleWordBigEndian''"
| "kindName (float32BigWordBigEndian f) = ''float32BigWordBigEndian''"
| "kindName (float32LittleWordLittleEndian f) = ''float32LittleWordLittleEndian''"
| "kindName (float32BigWordLittleEndian f) = ''float32BigWordLittleEndian''"
| "kindName (wordInt16BigEndian f) = ''wordInt16BigEndian''"
| "kindName (wordInt16LittleEndian f) = ''wordInt16LittleEndian''"

fun descriptorOf :: "encoder \<Rightarrow> descriptor" where
  "descriptorOf (float32LittleWordBigEndian f) = f"
| "descriptorOf (float32BigWordBigEndian f) = f"
| "descriptorOf (float32LittleWordLittleEndian f) = f"
| "descriptorOf (float32BigWordLittleEndian f) = f"
| "descriptorOf (wordInt16BigEndian f) = f"
| "descriptorOf (wordInt16LittleEndian f) = f"

section \<open>Slices and the server's buffers\<close>

text \<open>
  A Go slice is a window on a backing array: the array, a length and a capacity. All
  slices of the program start at the first element of their array, so the capacity is the
  length of the array. \<open>arr\<close> is the backing array and \<open>len\<close> the length of the slice.
\<close>

record 'a slice =
  arr :: "'a list"
  len :: nat

definition cap :: "'a slice \<Rightarrow> nat" where
  "cap s = length (arr s)"

text \<open>
  The slice expression \<^verbatim>\<open>s[:n]\<close>: the bound is checked against the capacity, not
  the length, and the result shares the array.
\<close>

definition reslice :: "'a slice \<Rightarrow> int \<Rightarrow> panic + 'a slice" where
  "reslice s n = (if n < 0 \<or> int (cap s) < n then Inl SliceBounds else Inr (s\<lparr>len := nat n\<rparr>))"

text \<open>
  \<open>append_slice\<close> is \<^verbatim>\<open>append(s, b...)\<close>: within the capacity the elements are stored in the shared array
  after the slice's last element; otherwise a new zeroed array receives the slice's
  elements and then \<open>b\<close>. How much room the new array has beyond the needed length is the
  allocator's choice: \<open>spare\<close> (of the old capacity and the needed length) is a parameter.
\<close>

definition append_slice :: "(nat \<Rightarrow> nat \<Rightarrow> nat) \<Rightarrow> ('a::zero) slice \<Rightarrow> 'a list \<Rightarrow> 'a slice" where
  "append_slice spare s b =
     (let n = len s + length b in
      if n \<le> cap s
      then \<lparr>arr = take (len s) (arr s) @ b @ drop n (arr s), len = n\<rparr>
      else \<lparr>arr = take (len s) (arr s) @ b @ replicate (spare (cap s) n) 0, len = n\<rparr>)"

text \<open>
  The server type belongs to the package \<^verbatim>\<open>mbserver\<close>, which \<^verbatim>\<open>main.go\<close> imports;
  \<^verbatim>\<open>setRegister\<close> uses its four buffers, two of bytes and two of 16-bit words.
\<close>

record Server =
  Coils :: "byte slice"
  DiscreteInputs :: "byte slice"
  InputRegisters :: "uint16 slice"
  HoldingRegisters :: "uint16 slice"

text \<open>
  Modelled from the spec: the body of \<^verbatim>\<open>mbserver.NewServer\<close> is missing. The
  specification gives each category a flat, zero-initialized buffer spanning the full
  protocol address space, 0..65535.
\<close>

definition NewServer :: Server where
  "NewServer =
     \<lparr>Coils = \<lparr>arr = replicate 65536 0, len = 65536\<rparr>,
      DiscreteInputs = \<lparr>arr = replicate 65536 0, len = 65536\<rparr>,
      InputRegisters = \<lparr>arr = replicate 65536 0, len = 65536\<rparr>,
      HoldingRegisters = \<lparr>arr = replicate 65536 0, len = 65536\<rparr>\<rparr>"

section \<open>Placement\<close>

definition coilSize :: int where "coilSize = 1"
definition discreteSize :: int where "discreteSize = 1"
definition inputSize :: int where "inputSize = 2"
definition holdingSize :: int where "holdingSize = 2"

text \<open>
  One \<^verbatim>\<open>for\<close> loop of \<^verbatim>\<open>setRegister\<close>. The four loops differ in the size constant,
  in the name inside the error text, in the buffer, and in what they store: \<open>units v\<close> is
  \<^verbatim>\<open>uint16ToByteSlice(v.Encode()[0])\<close> for coil and discrete and \<^verbatim>\<open>v.Encode()\<close> for
  input and holding. The state is the buffer and \<^verbatim>\<open>prevAddr\<close>. An element \<open>None\<close>
  of the list is a nil interface; calling its method panics. On an error the loop returns
  with the buffer as the entries before left it.
\<close>

fun placeLoop :: "(nat \<Rightarrow> nat \<Rightarrow> nat) \<Rightarrow> int \<Rightarrow> string \<Rightarrow> (encoder \<Rightarrow> ('a::zero) list) \<Rightarrow> int \<Rightarrow>
    'a slice \<Rightarrow> int \<Rightarrow> encoder option list \<Rightarrow> panic + ('a slice \<times> int \<times> error option)" where
  "placeLoop spare sz name units addrOffset buf prevAddr [] = Inr (buf, prevAddr, None)"
| "placeLoop spare sz name units addrOffset buf prevAddr (None # rest) = Inl NilDereference"
| "placeLoop spare sz name units addrOffset buf prevAddr (Some v # rest) =
     (let b = units v;
          addr = wrap64 (Address v + addrOffset)
      in if prevAddr > wrap64 (addr - sz)
         then Inr (buf, prevAddr, Some (WrongIncrement name addr))
         else (case reslice buf addr of
                 Inl p \<Rightarrow> Inl p
               | Inr head \<Rightarrow> placeLoop spare sz name units addrOffset (append_slice spare head b) addr rest))"

text \<open>
  \<^verbatim>\<open>setRegister\<close>: the result is a panic, or the server as the call left it together
  with the returned error (\<open>None\<close> is Go's \<^verbatim>\<open>nil\<close>).
\<close>

definition setRegister :: "(float64 \<Rightarrow> uint32) \<Rightarrow> (nat \<Rightarrow> nat \<Rightarrow> nat) \<Rightarrow> Server \<Rightarrow> encoder option list \<Rightarrow>
    string \<Rightarrow> int \<Rightarrow> panic + (Server \<times> error option)" where
  "setRegister f32 spare serv registryData registerType addrOffset =
     (let prevAddr = 0 in
      if registerType = ''coil'' then
        (case placeLoop spare coilSize ''coil'' (\<lambda>v. uint16ToByteSlice (Encode f32 v ! 0))
                addrOffset (Coils serv) prevAddr registryData of
           Inl p \<Rightarrow> Inl p
         | Inr (buf, _, err) \<Rightarrow> Inr (serv\<lparr>Coils := buf\<rparr>, err))
      else if registerType = ''discrete'' then
        (case placeLoop spare discreteSize ''discrete'' (\<lambda>v. uint16ToByteSlice (Encode f32 v ! 0))
                addrOffset (DiscreteInputs serv) prevAddr registryData of
           Inl p \<Rightarrow> Inl p
         | Inr (buf, _, err) \<Rightarrow> Inr (serv\<lparr>DiscreteInputs := buf\<rparr>, err))
      else if registerType = ''input'' then
        (case placeLoop spare inputSize ''input'' (Encode f32)
                addrOffset (InputRegisters serv) prevAddr registryData of
           Inl p \<Rightarrow> Inl p
         | Inr (buf, _, err) \<Rightarrow> Inr (serv\<lparr>InputRegisters := buf\<rparr>, err))
      else if registerType = ''holding'' then
        (case placeLoop spare holdingSize ''holding'' (Encode f32)
                addrOffset (HoldingRegisters serv) prevAddr registryData of
           Inl p \<Rightarrow> Inl p
         | Inr (buf, _, err) \<Rightarrow> Inr (serv\<lparr>HoldingRegisters := buf\<rparr>, err))
      else Inr (serv, Some WrongFile))"

subsection \<open>What the statements observe\<close>

text \<open>
  The four categories, the size constant of each, the effective address that the loop
  computes for an entry, the units it stores for the entry, and the backing array and the
  length of a category's buffer. Bytes and words are read as numbers so that one
  statement covers the four categories.
\<close>

definition categories :: "string list" where
  "categories = [''coil'', ''discrete'', ''input'', ''holding'']"

definition sizeOf :: "string \<Rightarrow> int" where
  "sizeOf name =
     (if name = ''coil'' then coilSize else if name = ''discrete'' then discreteSize
      else if name = ''input'' then inputSize else holdingSize)"

definition effective :: "encoder \<Rightarrow> int \<Rightarrow> int" where
  "effective v addrOffset = wrap64 (Address v + addrOffset)"

definition unitsOf :: "(float64 \<Rightarrow> uint32) \<Rightarrow> string \<Rightarrow> encoder \<Rightarrow> nat list" where
  "unitsOf f32 name v =
     (if name = ''coil'' \<or> name = ''discrete''
      then map unat (uint16ToByteSlice (Encode f32 v ! 0))
      else map unat (Encode f32 v))"

definition bufferOf :: "Server \<Rightarrow> string \<Rightarrow> nat list" where
  "bufferOf serv name =
     (if name = ''coil'' then map unat (arr (Coils serv))
      else if name = ''discrete'' then map unat (arr (DiscreteInputs serv))
      else if name = ''input'' then map unat (arr (InputRegisters serv))
      else map unat (arr (HoldingRegisters serv)))"

definition lengthOf :: "Server \<Rightarrow> string \<Rightarrow> nat" where
  "lengthOf serv name =
     (if name = ''coil'' then len (Coils serv)
      else if name = ''discrete'' then len (DiscreteInputs serv)
      else if name = ''input'' then len (InputRegisters serv)
      else len (HoldingRegisters serv))"

definition returned :: "panic + (Server \<times> error option) \<Rightarrow> panic + error option" where
  "returned r = map_sum id snd r"

subsection \<open>What the statements say about the entries\<close>

text \<open>
  \<open>overlay ws i\<close> is the unit that a sequence of writes (start index, units) leaves at
  index \<open>i\<close>: the unit of the last write that covers \<open>i\<close>, if any.
  \<open>ascending sz prev as\<close> says that each address of \<open>as\<close> is at least the address
  before it plus \<open>sz\<close>, the first at least \<open>prev + sz\<close>. \<open>lastAddr\<close> is the value of
  \<^verbatim>\<open>prevAddr\<close> after the entries \<open>pre\<close> were placed. \<open>placedAt buf a us\<close> says that
  \<open>buf\<close> holds the units \<open>us\<close> from index \<open>a\<close> on.
\<close>

fun overlay :: "(nat \<times> 'a list) list \<Rightarrow> nat \<Rightarrow> 'a option" where
  "overlay [] i = None"
| "overlay ((a, b) # ws) i =
     (case overlay ws i of
        Some x \<Rightarrow> Some x
      | None \<Rightarrow> if a \<le> i \<and> i < a + length b then Some (b ! (i - a)) else None)"

fun ascending :: "int \<Rightarrow> int \<Rightarrow> int list \<Rightarrow> bool" where
  "ascending sz prev [] = True"
| "ascending sz prev (a # as) = (prev + sz \<le> a \<and> ascending sz a as)"

definition lastAddr :: "encoder list \<Rightarrow> int \<Rightarrow> int" where
  "lastAddr pre addrOffset = (if pre = [] then 0 else effective (last pre) addrOffset)"

definition placedAt :: "nat list \<Rightarrow> nat \<Rightarrow> nat list \<Rightarrow> bool" where
  "placedAt buf a us = (\<forall>j < length us. a + j < length buf \<and> buf ! (a + j) = us ! j)"

subsection \<open>Example inputs\<close>

text \<open>
  The examples run \<^verbatim>\<open>setRegister\<close> on a new server. \<open>exampleBits\<close> stands for
  \<^verbatim>\<open>math.Float32bits(float32(x))\<close> in them: it is right on 3.1415, the only number
  they encode as a float (\<^verbatim>\<open>float32(3.1415)\<close> has the bit pattern 0x40490E56).
  \<open>noSpare\<close> is the allocator that adds no room. \<open>floatAt a\<close> is the descriptor
  \<^verbatim>\<open>{"type": "float32BigWordBigEndian", "number": 3.1415, "regAddr": a}\<close> and
  \<open>coilAt n a\<close> is \<^verbatim>\<open>{"type": "wordInt16BigEndian", "number": n, "regAddr": a}\<close>.
\<close>

definition exampleBits :: "float64 \<Rightarrow> uint32" where
  "exampleBits x = (if x = 3.1415 then 0x40490E56 else 0)"

definition noSpare :: "nat \<Rightarrow> nat \<Rightarrow> nat" where
  "noSpare c n = 0"

abbreviation floatAt :: "float64 \<Rightarrow> encoder" where
  "floatAt a \<equiv> float32BigWordBigEndian \<lparr>Type = ''float32BigWordBigEndian'', Number = 3.1415, RegAddr = a\<rparr>"

abbreviation coilAt :: "float64 \<Rightarrow> float64 \<Rightarrow> encoder" where
  "coilAt n a \<equiv> wordInt16BigEndian \<lparr>Type = ''wordInt16BigEndian'', Number = n, RegAddr = a\<rparr>"

section \<open>Bytes and words\<close>

lemma mask16_int: "(0xFFFF::int) = mask 16" by (simp add: mask_eq_exp_minus_1)
lemma mask16_w32: "(0xffff::uint32) = mask 16" by (simp add: mask_eq_exp_minus_1)

lemma uint16ToLittleEndian_word: "uint16ToLittleEndian u = push_bit 8 u OR drop_bit 8 u"
  unfolding uint16ToLittleEndian_def LittleEndian_PutUint16_def BigEndian_Uint16_def Let_def
  by (rule bit_word_eqI) (auto simp add: bit_simps dest: bit_imp_le_length)

lemma uint_uint16ToLittleEndian: "uint (uint16ToLittleEndian u) = swap (uint u)"
  unfolding uint16ToLittleEndian_word swap_def mask16_int
  by (rule bit_eqI) (auto simp add: bit_simps dest: bit_imp_le_length)

lemma uint_high: "uint (ucast (drop_bit 16 n AND 0xffff) :: uint16) = high16 (n::uint32)"
  unfolding high16_def mask16_w32
  by (rule bit_eqI) (auto simp add: bit_simps dest: bit_imp_le_length)

lemma uint_low: "uint (ucast (n AND 0xffff) :: uint16) = low16 (n::uint32)"
  unfolding low16_def mask16_w32 mask16_int
  by (rule bit_eqI) (auto simp add: bit_simps dest: bit_imp_le_length)

lemma low16_drop_bit: "low16 (drop_bit 16 n) = high16 n"
  unfolding low16_def high16_def mask16_int
  by (rule bit_eqI) (auto simp add: bit_simps dest: bit_imp_le_length)

lemma uint16ToLittleEndian_involution: "uint16ToLittleEndian (uint16ToLittleEndian w) = w"
  unfolding uint16ToLittleEndian_word
  by (rule bit_word_eqI) (auto simp add: bit_simps dest: bit_imp_le_length)

lemma unswap_uint16ToLittleEndian: "unswap (uint16ToLittleEndian w) = w"
  unfolding unswap_def uint_uint16ToLittleEndian [symmetric]
  by (simp add: uint16ToLittleEndian_involution)

lemma rejoin_split: "rejoin (ucast (drop_bit 16 n AND 0xffff)) (ucast (n AND 0xffff)) = (n::uint32)"
  unfolding rejoin_def mask16_w32
  by (rule bit_word_eqI) (auto simp add: bit_simps dest: bit_imp_le_length)

lemma low_byte_one: "(ucast (push_bit 8 (x::uint16) OR 1) :: byte) = 1"
  by (rule bit_word_eqI) (auto simp add: bit_simps dest: bit_imp_le_length)

lemma high_byte_value: "(ucast (drop_bit 8 (push_bit 8 (x::uint16) OR 1)) :: byte) = ucast x"
  by (rule bit_word_eqI) (auto simp add: bit_simps dest: bit_imp_le_length)

lemma uint_shifted_or_one:
  "uint (push_bit 8 (word_of_int t :: uint16) OR 1) = (t mod 256) * 256 + 1"
proof -
  have "uint (push_bit 8 (word_of_int t :: uint16) OR 1) = push_bit 8 (take_bit 8 t) OR 1"
    by (rule bit_eqI) (auto simp add: bit_simps dest: bit_imp_le_length)
  also have "\<dots> = push_bit 8 (take_bit 8 t) + 1"
    by (simp add: or_one_eq)
  finally show ?thesis by (simp add: push_bit_eq_mult take_bit_eq_mod)
qed

lemma uint_go_uint16:
  "uint (go_uint16 x) = (if - (2 ^ 31) \<le> trunc x \<and> trunc x < 2 ^ 31 then trunc x mod 65536 else 0)"
  by (simp add: go_uint16_def Let_def uint_word_of_int take_bit_eq_mod)

section \<open>Lemmas on the factory\<close>

lemma assertFloat64_Inl: "(\<forall>x. y \<noteq> Some (JFloat64 x)) \<Longrightarrow> assertFloat64 y = Inl TypeAssertion"
  by (cases y rule: assertFloat64.cases) simp_all

lemma assertFloat64_panic: "assertFloat64 y = Inl p \<Longrightarrow> p = TypeAssertion"
  by (cases y rule: assertFloat64.cases) simp_all

lemma assertString_Inl: "(\<forall>x. y \<noteq> Some (JString x)) \<Longrightarrow> assertString y = Inl TypeAssertion"
  by (cases y rule: assertString.cases) simp_all

lemma NewEncoder_recognized:
  assumes "m ''type'' = Some (JString t)" and "t \<in> set recognized"
  shows "NewEncoder m = map_sum id Some (map_sum id
     (if t = ''float32LittleWordBigEndian'' then float32LittleWordBigEndian
      else if t = ''float32BigWordBigEndian'' then float32BigWordBigEndian
      else if t = ''float32LittleWordLittleEndian'' then float32LittleWordLittleEndian
      else if t = ''float32BigWordLittleEndian'' then float32BigWordLittleEndian
      else if t = ''wordInt16BigEndian'' then wordInt16BigEndian
      else wordInt16LittleEndian) (assertFields m))"
  using assms
  by (auto simp add: NewEncoder_def recognized_def NewFloat32LittleWordBigEndian_def
      NewFloat32BigWordBigEndian_def NewFloat32LittleWordLittleEndian_def
      NewFloat32BigWordLittleEndian_def NewWordInt16BigEndian_def NewWordInt16LittleEndian_def)

lemma kind_determines:
  "kindName v = ''float32BigWordBigEndian'' \<Longrightarrow> descriptorOf v = d \<Longrightarrow> v = float32BigWordBigEndian d"
  by (cases v) simp_all

section \<open>Lemmas on slices and on the loop\<close>

lemma wrap64_id: "- (2 ^ 63) \<le> k \<Longrightarrow> k < 2 ^ 63 \<Longrightarrow> wrap64 k = k"
  unfolding wrap64_def by (rule signed_take_bit_int_eq_self) simp_all

lemma wrap64_lower: "- (2 ^ 63) \<le> wrap64 k"
  unfolding wrap64_def using signed_take_bit_int_greater_eq_minus_exp [of 63 k] by simp

lemma wrap64_upper: "wrap64 k < 2 ^ 63"
  unfolding wrap64_def using signed_take_bit_int_less_exp [of 63 k] by simp

lemma wrap64_add_left: "wrap64 (wrap64 a + b) = wrap64 (a + b)"
proof -
  have "signed_take_bit 63 (signed_take_bit 63 a + b) =
        signed_take_bit 63 (signed_take_bit 63 (signed_take_bit 63 a) + signed_take_bit 63 b)"
    by (rule signed_take_bit_add [symmetric])
  also have "\<dots> = signed_take_bit 63 (signed_take_bit 63 a + signed_take_bit 63 b)"
    by (simp only: signed_take_bit_signed_take_bit min.idem)
  also have "\<dots> = signed_take_bit 63 (a + b)"
    by (rule signed_take_bit_add)
  finally show ?thesis by (simp only: wrap64_def)
qed

lemma append_slice_len: "len (append_slice g s b) = len s + length b"
  by (simp add: append_slice_def Let_def)

lemma append_slice_cap:
  "len s \<le> cap s \<Longrightarrow> cap s \<le> cap (append_slice g s b) \<and> len s + length b \<le> cap (append_slice g s b)"
  by (auto simp add: append_slice_def Let_def cap_def)

lemma append_slice_nth:
  assumes "len s \<le> cap s" and "i < cap (append_slice g s b)"
  shows "arr (append_slice g s b) ! i =
     (if len s \<le> i \<and> i < len s + length b then b ! (i - len s)
      else if i < cap s then arr s ! i else 0)"
  using assms
  by (auto simp add: append_slice_def Let_def cap_def nth_append min_def split: if_splits)




lemma reslice_Inr: "reslice s n = Inr t \<Longrightarrow> 0 \<le> n \<and> n \<le> int (cap s) \<and> t = s\<lparr>len := nat n\<rparr>"
  by (auto simp add: reslice_def split: if_splits)

lemma reslice_ok: "0 \<le> n \<Longrightarrow> n \<le> int (cap s) \<Longrightarrow> reslice s n = Inr (s\<lparr>len := nat n\<rparr>)"
  by (simp add: reslice_def)

lemma cap_len_update [simp]: "cap (s\<lparr>len := n\<rparr>) = cap s"
  by (simp add: cap_def)

text \<open>One step of the loop that succeeds.\<close>

lemma placeLoop_Cons_success:
  assumes "placeLoop g sz nm u off s prev (Some v # rest) = Inr (s', prev', None)"
  shows "\<not> prev > wrap64 (effective v off - sz)
       \<and> 0 \<le> effective v off \<and> effective v off \<le> int (cap s)
       \<and> placeLoop g sz nm u off (append_slice g (s\<lparr>len := nat (effective v off)\<rparr>) (u v))
            (effective v off) rest = Inr (s', prev', None)"
proof -
  let ?a = "effective v off"
  from assms have chk: "\<not> prev > wrap64 (?a - sz)"
    by (auto simp add: Let_def effective_def split: if_splits)
  with assms obtain t where t: "reslice s ?a = Inr t"
    and rest: "placeLoop g sz nm u off (append_slice g t (u v)) ?a rest = Inr (s', prev', None)"
    by (auto simp add: Let_def effective_def split: sum.splits)
  from reslice_Inr [OF t] rest chk show ?thesis by simp
qed

lemma placeLoop_cap_mono:
  "placeLoop g sz nm u off s prev (map Some es) = Inr (s', prev', e) \<Longrightarrow> cap s \<le> cap s'"
proof (induction es arbitrary: s prev)
  case Nil
  then show ?case by simp
next
  case (Cons v es)
  let ?a = "effective v off"
  show ?case
  proof (cases "prev > wrap64 (?a - sz)")
    case True
    with Cons.prems show ?thesis by (simp add: Let_def effective_def)
  next
    case False
    with Cons.prems obtain t where t: "reslice s ?a = Inr t"
      and rest: "placeLoop g sz nm u off (append_slice g t (u v)) ?a (map Some es) = Inr (s', prev', e)"
      by (auto simp add: Let_def effective_def split: sum.splits)
    from reslice_Inr [OF t] have "len t \<le> cap t" "cap t = cap s" by auto
    with append_slice_cap [of t g "u v"] Cons.IH [OF rest] show ?thesis by simp
  qed
qed

lemma placeLoop_cells:
  assumes "placeLoop g sz nm u off s prev (map Some es) = Inr (s', prev', None)"
    and "i < cap s'"
  shows "arr s' ! i =
     (case overlay (map (\<lambda>v. (nat (effective v off), u v)) es) i of
        Some x \<Rightarrow> x
      | None \<Rightarrow> if i < cap s then arr s ! i else 0)"
  using assms
proof (induction es arbitrary: s prev)
  case Nil
  then show ?case by simp
next
  case (Cons v es)
  let ?a = "effective v off"
  let ?t = "s\<lparr>len := nat ?a\<rparr>"
  let ?s1 = "append_slice g ?t (u v)"
  from placeLoop_Cons_success [of g sz nm u off s prev v "map Some es" s' prev'] Cons.prems(1)
  have a: "0 \<le> ?a" "?a \<le> int (cap s)"
    and rest: "placeLoop g sz nm u off ?s1 ?a (map Some es) = Inr (s', prev', None)"
    by simp_all
  have wf: "len ?t \<le> cap ?t" using a by simp
  note ih = Cons.IH [OF rest Cons.prems(2)]
  show ?case
  proof (cases "overlay (map (\<lambda>v. (nat (effective v off), u v)) es) i")
    case (Some x)
    with ih show ?thesis by simp
  next
    case None
    have caps: "cap s \<le> cap ?s1" "nat ?a + length (u v) \<le> cap ?s1"
      using append_slice_cap [OF wf, of g "u v"] by simp_all
    have "(if i < cap ?s1 then arr ?s1 ! i else 0) =
          (if nat ?a \<le> i \<and> i < nat ?a + length (u v) then u v ! (i - nat ?a)
           else if i < cap s then arr s ! i else 0)"
    proof (cases "i < cap ?s1")
      case True
      from append_slice_nth [OF wf True] show ?thesis using True by simp
    next
      case False
      with caps show ?thesis by auto
    qed
    with ih None show ?thesis by simp
  qed
qed

lemma placeLoop_append:
  "placeLoop g sz nm u off s prev (xs @ ys) =
     (case placeLoop g sz nm u off s prev xs of
        Inl p \<Rightarrow> Inl p
      | Inr (s', prev', None) \<Rightarrow> placeLoop g sz nm u off s' prev' ys
      | Inr (s', prev', Some e) \<Rightarrow> Inr (s', prev', Some e))"
proof (induction xs arbitrary: s prev)
  case Nil
  show ?case by simp
next
  case (Cons x xs)
  show ?case
  proof (cases x)
    case None
    then show ?thesis by simp
  next
    case (Some v)
    show ?thesis
      unfolding Some append_Cons placeLoop.simps Let_def
      by (simp add: Cons.IH split: sum.splits)
  qed
qed

text \<open>A pass that succeeds leaves \<open>prevAddr\<close> at the last entry's effective address.\<close>

lemma placeLoop_prev:
  "placeLoop g sz nm u off s prev (map Some es) = Inr (s', prev', None) \<Longrightarrow>
   prev' = (if es = [] then prev else effective (last es) off)"
proof (induction es arbitrary: s prev)
  case Nil
  then show ?case by simp
next
  case (Cons v es)
  from placeLoop_Cons_success [of g sz nm u off s prev v "map Some es" s' prev'] Cons.prems
  have rest: "placeLoop g sz nm u off (append_slice g (s\<lparr>len := nat (effective v off)\<rparr>) (u v))
      (effective v off) (map Some es) = Inr (s', prev', None)"
    by simp
  from Cons.IH [OF rest] show ?case by simp
qed

lemma placeLoop_ascending:
  assumes "placeLoop g sz nm u off s prev (map Some es) = Inr (s', prev', None)"
    and "0 \<le> prev" and "0 \<le> sz" and "sz \<le> 2"
  shows "ascending sz prev (map (\<lambda>v. effective v off) es)
       \<and> (\<forall>v \<in> set es. effective v off \<le> int (cap s'))"
  using assms(1,2)
proof (induction es arbitrary: s prev)
  case Nil
  then show ?case by simp
next
  case (Cons v es)
  let ?a = "effective v off"
  from placeLoop_Cons_success [of g sz nm u off s prev v "map Some es" s' prev'] Cons.prems(1)
  have chk: "\<not> prev > wrap64 (?a - sz)" and a: "0 \<le> ?a" "?a \<le> int (cap s)"
    and rest: "placeLoop g sz nm u off (append_slice g (s\<lparr>len := nat ?a\<rparr>) (u v)) ?a (map Some es)
       = Inr (s', prev', None)"
    by simp_all
  have "?a < 2 ^ 63" unfolding effective_def by (rule wrap64_upper)
  with a assms(3,4) have "wrap64 (?a - sz) = ?a - sz"
    by (intro wrap64_id) simp_all
  with chk have step: "prev + sz \<le> ?a" by simp
  from Cons.IH [OF rest a(1)] have ih: "ascending sz ?a (map (\<lambda>v. effective v off) es)"
    "\<forall>v \<in> set es. effective v off \<le> int (cap s')" by simp_all
  have "cap s \<le> cap s'"
  proof -
    have "len (s\<lparr>len := nat ?a\<rparr>) \<le> cap (s\<lparr>len := nat ?a\<rparr>)" using a by simp
    from append_slice_cap [OF this, of g "u v"] placeLoop_cap_mono [OF rest]
    show ?thesis by simp
  qed
  with a step ih show ?case by simp
qed

lemma placeLoop_succeeds:
  assumes "ascending sz prev (map (\<lambda>v. effective v off) es)"
    and "\<forall>v \<in> set es. effective v off \<le> int (cap s)"
    and "0 \<le> prev" and "0 \<le> sz"
  shows "\<exists>s' prev'. placeLoop g sz nm u off s prev (map Some es) = Inr (s', prev', None)"
  using assms(1,2,3)
proof (induction es arbitrary: s prev)
  case Nil
  show ?case by simp
next
  case (Cons v es)
  let ?a = "effective v off"
  let ?s1 = "append_slice g (s\<lparr>len := nat ?a\<rparr>) (u v)"
  from Cons.prems have step: "prev + sz \<le> ?a" and asc: "ascending sz ?a (map (\<lambda>v. effective v off) es)"
    and a: "?a \<le> int (cap s)" and bound: "\<forall>v \<in> set es. effective v off \<le> int (cap s)"
    by simp_all
  from step Cons.prems(3) assms(4) have a0: "0 \<le> ?a" by simp
  have "?a < 2 ^ 63" unfolding effective_def by (rule wrap64_upper)
  with step Cons.prems(3) assms(4) have w: "wrap64 (?a - sz) = ?a - sz"
    by (intro wrap64_id) simp_all
  have "len (s\<lparr>len := nat ?a\<rparr>) \<le> cap (s\<lparr>len := nat ?a\<rparr>)" using a a0 by simp
  from append_slice_cap [OF this, of g "u v"] have "cap s \<le> cap ?s1" by simp
  with bound have "\<forall>v \<in> set es. effective v off \<le> int (cap ?s1)" by fastforce
  from Cons.IH [OF asc this a0] obtain s' prev'
    where "placeLoop g sz nm u off ?s1 ?a (map Some es) = Inr (s', prev', None)" by blast
  moreover have "\<not> prev > wrap64 (wrap64 (Address v + off) - sz)"
    using w step by (simp add: effective_def)
  moreover have "reslice s (wrap64 (Address v + off)) = Inr (s\<lparr>len := nat ?a\<rparr>)"
    using reslice_ok [OF a0 a] by (simp add: effective_def)
  ultimately show ?case by (simp add: Let_def effective_def)
qed

text \<open>The entry that the check rejects.\<close>

lemma placeLoop_rejects:
  assumes "placeLoop g sz nm u off s prev (map Some pre) = Inr (s', prev', None)"
    and "prev' > wrap64 (effective v off - sz)"
  shows "placeLoop g sz nm u off s prev (map Some pre @ Some v # post)
       = Inr (s', prev', Some (WrongIncrement nm (effective v off)))"
  using assms by (simp add: placeLoop_append Let_def effective_def)

lemma overlay_map:
  "overlay (map (\<lambda>v. (a v, map h (b v))) es) i = map_option h (overlay (map (\<lambda>v. (a v, b v)) es) i)"
  by (induction es) (auto split: option.splits)

lemma overlay_None:
  "(\<forall>w \<in> set ws. \<not> (fst w \<le> i \<and> i < fst w + length (snd w))) \<Longrightarrow> overlay ws i = None"
  by (induction ws) (auto split: option.splits)

lemma overlay_last_cover:
  assumes "k < length ws" and "fst (ws ! k) \<le> i" and "i < fst (ws ! k) + length (snd (ws ! k))"
    and "\<forall>k'. k < k' \<and> k' < length ws \<longrightarrow> i < fst (ws ! k')"
  shows "overlay ws i = Some (snd (ws ! k) ! (i - fst (ws ! k)))"
  using assms
proof (induction ws arbitrary: k)
  case Nil
  then show ?case by simp
next
  case (Cons w ws)
  obtain a b where w: "w = (a, b)" by (cases w)
  show ?case
  proof (cases k)
    case 0
    have "\<forall>x \<in> set ws. \<not> (fst x \<le> i \<and> i < fst x + length (snd x))"
    proof
      fix x assume "x \<in> set ws"
      then obtain j where "j < length ws" "ws ! j = x" by (auto simp add: in_set_conv_nth)
      with Cons.prems(4) [rule_format, of "Suc j"] 0 show "\<not> (fst x \<le> i \<and> i < fst x + length (snd x))"
        by auto
    qed
    from overlay_None [OF this] Cons.prems(2,3) 0 w show ?thesis by simp
  next
    case (Suc j)
    have "overlay ws i = Some (snd (ws ! j) ! (i - fst (ws ! j)))"
    proof (rule Cons.IH)
      show "j < length ws" using Cons.prems(1) Suc by simp
      show "fst (ws ! j) \<le> i" using Cons.prems(2) Suc by simp
      show "i < fst (ws ! j) + length (snd (ws ! j))" using Cons.prems(3) Suc by simp
      show "\<forall>k'. j < k' \<and> k' < length ws \<longrightarrow> i < fst (ws ! k')"
      proof (intro allI impI)
        fix k' assume "j < k' \<and> k' < length ws"
        with Cons.prems(4) [rule_format, of "Suc k'"] Suc show "i < fst (ws ! k')" by simp
      qed
    qed
    with Suc w show ?thesis by simp
  qed
qed

lemma ascending_nth:
  assumes "ascending sz prev as" and "0 \<le> sz" and "k < k'" and "k' < length as"
  shows "as ! k + sz \<le> as ! k'"
  using assms
proof (induction as arbitrary: prev k k')
  case Nil
  then show ?case by simp
next
  case (Cons a as)
  from Cons.prems(1) have asc: "ascending sz a as" by simp
  obtain j' where j': "k' = Suc j'" using Cons.prems(3) by (cases k') simp_all
  have first: "\<And>j. j < length as \<Longrightarrow> a + sz \<le> as ! j"
  proof -
    fix j assume "j < length as"
    then show "a + sz \<le> as ! j" using asc
    proof (induction as arbitrary: a j)
      case Nil
      then show ?case by simp
    next
      case (Cons b bs)
      show ?case
      proof (cases j)
        case 0
        with Cons.prems show ?thesis by simp
      next
        case (Suc i)
        with Cons.prems Cons.IH [of i b] assms(2) show ?thesis by simp
      qed
    qed
  qed
  show ?case
  proof (cases k)
    case 0
    with j' Cons.prems(4) first [of j'] show ?thesis by simp
  next
    case (Suc j)
    with j' Cons.prems Cons.IH [OF asc assms(2), of j j'] show ?thesis by simp
  qed
qed

lemma ascending_first:
  assumes "ascending sz prev as" and "0 \<le> sz" and "k < length as"
  shows "prev + sz \<le> as ! k"
  using ascending_nth [of sz "prev - sz" "prev # as" 0 "Suc k"] assms by simp

section \<open>From the loop to setRegister\<close>

lemma setRegister_coil:
  "setRegister f g serv data ''coil'' off = Inr (s', e) \<longleftrightarrow>
     (\<exists>buf prev'. placeLoop g coilSize ''coil'' (\<lambda>v. uint16ToByteSlice (Encode f v ! 0)) off
         (Coils serv) 0 data = Inr (buf, prev', e) \<and> s' = serv\<lparr>Coils := buf\<rparr>)"
  by (auto simp add: setRegister_def split: sum.splits)

lemma setRegister_discrete:
  "setRegister f g serv data ''discrete'' off = Inr (s', e) \<longleftrightarrow>
     (\<exists>buf prev'. placeLoop g discreteSize ''discrete'' (\<lambda>v. uint16ToByteSlice (Encode f v ! 0)) off
         (DiscreteInputs serv) 0 data = Inr (buf, prev', e) \<and> s' = serv\<lparr>DiscreteInputs := buf\<rparr>)"
  by (auto simp add: setRegister_def split: sum.splits)

lemma setRegister_input:
  "setRegister f g serv data ''input'' off = Inr (s', e) \<longleftrightarrow>
     (\<exists>buf prev'. placeLoop g inputSize ''input'' (Encode f) off
         (InputRegisters serv) 0 data = Inr (buf, prev', e) \<and> s' = serv\<lparr>InputRegisters := buf\<rparr>)"
  by (auto simp add: setRegister_def split: sum.splits)

lemma setRegister_holding:
  "setRegister f g serv data ''holding'' off = Inr (s', e) \<longleftrightarrow>
     (\<exists>buf prev'. placeLoop g holdingSize ''holding'' (Encode f) off
         (HoldingRegisters serv) 0 data = Inr (buf, prev', e) \<and> s' = serv\<lparr>HoldingRegisters := buf\<rparr>)"
  by (auto simp add: setRegister_def split: sum.splits)

lemma category_cases:
  "nm \<in> set categories \<Longrightarrow> nm = ''coil'' \<or> nm = ''discrete'' \<or> nm = ''input'' \<or> nm = ''holding''"
  by (simp add: categories_def)

lemma sizeOf_bounds: "0 \<le> sizeOf nm \<and> sizeOf nm \<le> 2"
  by (simp add: sizeOf_def coilSize_def discreteSize_def inputSize_def holdingSize_def)

lemma bufferOf_simps:
  "bufferOf serv ''coil'' = map unat (arr (Coils serv))"
  "bufferOf serv ''discrete'' = map unat (arr (DiscreteInputs serv))"
  "bufferOf serv ''input'' = map unat (arr (InputRegisters serv))"
  "bufferOf serv ''holding'' = map unat (arr (HoldingRegisters serv))"
  by (simp_all add: bufferOf_def)

lemma unitsOf_simps:
  "unitsOf f ''coil'' = (\<lambda>v. map unat (uint16ToByteSlice (Encode f v ! 0)))"
  "unitsOf f ''discrete'' = (\<lambda>v. map unat (uint16ToByteSlice (Encode f v ! 0)))"
  "unitsOf f ''input'' = (\<lambda>v. map unat (Encode f v))"
  "unitsOf f ''holding'' = (\<lambda>v. map unat (Encode f v))"
  by (simp_all add: unitsOf_def fun_eq_iff)

lemma sizeOf_simps:
  "sizeOf ''coil'' = coilSize" "sizeOf ''discrete'' = discreteSize"
  "sizeOf ''input'' = inputSize" "sizeOf ''holding'' = holdingSize"
  by (simp_all add: sizeOf_def)

text \<open>The content of a category's backing array after a pass that succeeded.\<close>

lemma cells_unat:
  assumes "placeLoop g sz nm u off s prev (map Some es) = Inr (s', prev', None)"
    and "i < length (arr s')"
  shows "map unat (arr s') ! i =
     (case overlay (map (\<lambda>v. (nat (effective v off), map unat (u v))) es) i of
        Some x \<Rightarrow> x
      | None \<Rightarrow> if i < length (map unat (arr s)) then map unat (arr s) ! i else 0)"
proof -
  from assms(2) have i: "i < cap s'" by (simp add: cap_def)
  from placeLoop_cells [OF assms(1) i] assms(2) show ?thesis
    by (simp add: overlay_map cap_def split: option.splits)
qed

lemma setRegister_cells:
  assumes "nm \<in> set categories"
    and "setRegister f g serv (map Some es) nm off = Inr (s', None)"
    and "i < length (bufferOf s' nm)"
  shows "bufferOf s' nm ! i =
     (case overlay (map (\<lambda>v. (nat (effective v off), unitsOf f nm v)) es) i of
        Some x \<Rightarrow> x
      | None \<Rightarrow> if i < length (bufferOf serv nm) then bufferOf serv nm ! i else 0)"
proof -
  from category_cases [OF assms(1)] consider "nm = ''coil''" | "nm = ''discrete''"
    | "nm = ''input''" | "nm = ''holding''" by blast
  then show ?thesis
  proof cases
    case 1
    with assms(2) obtain buf prev' where
      p: "placeLoop g coilSize ''coil'' (\<lambda>v. uint16ToByteSlice (Encode f v ! 0)) off (Coils serv) 0
            (map Some es) = Inr (buf, prev', None)" and s': "s' = serv\<lparr>Coils := buf\<rparr>"
      by (auto simp add: setRegister_coil)
    from assms(3) 1 s' have "i < length (arr buf)" by (simp add: bufferOf_simps)
    from cells_unat [OF p this] show ?thesis unfolding 1 s' bufferOf_simps unitsOf_simps by simp
  next
    case 2
    with assms(2) obtain buf prev' where
      p: "placeLoop g discreteSize ''discrete'' (\<lambda>v. uint16ToByteSlice (Encode f v ! 0)) off
            (DiscreteInputs serv) 0 (map Some es) = Inr (buf, prev', None)"
      and s': "s' = serv\<lparr>DiscreteInputs := buf\<rparr>"
      by (auto simp add: setRegister_discrete)
    from assms(3) 2 s' have "i < length (arr buf)" by (simp add: bufferOf_simps)
    from cells_unat [OF p this] show ?thesis unfolding 2 s' bufferOf_simps unitsOf_simps by simp
  next
    case 3
    with assms(2) obtain buf prev' where
      p: "placeLoop g inputSize ''input'' (Encode f) off (InputRegisters serv) 0
            (map Some es) = Inr (buf, prev', None)" and s': "s' = serv\<lparr>InputRegisters := buf\<rparr>"
      by (auto simp add: setRegister_input)
    from assms(3) 3 s' have "i < length (arr buf)" by (simp add: bufferOf_simps)
    from cells_unat [OF p this] show ?thesis unfolding 3 s' bufferOf_simps unitsOf_simps by simp
  next
    case 4
    with assms(2) obtain buf prev' where
      p: "placeLoop g holdingSize ''holding'' (Encode f) off (HoldingRegisters serv) 0
            (map Some es) = Inr (buf, prev', None)" and s': "s' = serv\<lparr>HoldingRegisters := buf\<rparr>"
      by (auto simp add: setRegister_holding)
    from assms(3) 4 s' have "i < length (arr buf)" by (simp add: bufferOf_simps)
    from cells_unat [OF p this] show ?thesis unfolding 4 s' bufferOf_simps unitsOf_simps by simp
  qed
qed

lemma setRegister_succeeds:
  assumes "nm \<in> set categories"
    and asc: "ascending (sizeOf nm) 0 (map (\<lambda>v. effective v off) es)"
    and bound: "\<forall>v \<in> set es. effective v off \<le> int (length (bufferOf serv nm))"
  shows "\<exists>s'. setRegister f g serv (map Some es) nm off = Inr (s', None)"
proof -
  from category_cases [OF assms(1)] consider "nm = ''coil''" | "nm = ''discrete''"
    | "nm = ''input''" | "nm = ''holding''" by blast
  then show ?thesis
  proof cases
    case 1
    from asc bound have "\<exists>s' prev'. placeLoop g coilSize ''coil'' (\<lambda>v. uint16ToByteSlice (Encode f v ! 0))
        off (Coils serv) 0 (map Some es) = Inr (s', prev', None)"
      unfolding 1 sizeOf_simps bufferOf_simps
      by (intro placeLoop_succeeds) (simp_all add: cap_def coilSize_def)
    then show ?thesis unfolding 1 by (auto simp add: setRegister_coil)
  next
    case 2
    from asc bound have "\<exists>s' prev'. placeLoop g discreteSize ''discrete''
        (\<lambda>v. uint16ToByteSlice (Encode f v ! 0)) off (DiscreteInputs serv) 0 (map Some es)
        = Inr (s', prev', None)"
      unfolding 2 sizeOf_simps bufferOf_simps
      by (intro placeLoop_succeeds) (simp_all add: cap_def discreteSize_def)
    then show ?thesis unfolding 2 by (auto simp add: setRegister_discrete)
  next
    case 3
    from asc bound have "\<exists>s' prev'. placeLoop g inputSize ''input'' (Encode f)
        off (InputRegisters serv) 0 (map Some es) = Inr (s', prev', None)"
      unfolding 3 sizeOf_simps bufferOf_simps
      by (intro placeLoop_succeeds) (simp_all add: cap_def inputSize_def)
    then show ?thesis unfolding 3 by (auto simp add: setRegister_input)
  next
    case 4
    from asc bound have "\<exists>s' prev'. placeLoop g holdingSize ''holding'' (Encode f)
        off (HoldingRegisters serv) 0 (map Some es) = Inr (s', prev', None)"
      unfolding 4 sizeOf_simps bufferOf_simps
      by (intro placeLoop_succeeds) (simp_all add: cap_def holdingSize_def)
    then show ?thesis unfolding 4 by (auto simp add: setRegister_holding)
  qed
qed

text \<open>What a pass that succeeded says about its entries and about the other buffers.\<close>

lemma setRegister_success_facts:
  assumes "nm \<in> set categories"
    and "setRegister f g serv (map Some es) nm off = Inr (s', None)"
  shows "ascending (sizeOf nm) 0 (map (\<lambda>v. effective v off) es)"
    and "\<forall>v \<in> set es. effective v off \<le> int (length (bufferOf s' nm))"
    and "length (bufferOf serv nm) \<le> length (bufferOf s' nm)"
    and "\<forall>nm' \<in> set categories. nm' \<noteq> nm \<longrightarrow> bufferOf s' nm' = bufferOf serv nm'"
proof -
  from category_cases [OF assms(1)] consider "nm = ''coil''" | "nm = ''discrete''"
    | "nm = ''input''" | "nm = ''holding''" by blast
  then have "ascending (sizeOf nm) 0 (map (\<lambda>v. effective v off) es)
      \<and> (\<forall>v \<in> set es. effective v off \<le> int (length (bufferOf s' nm)))
      \<and> length (bufferOf serv nm) \<le> length (bufferOf s' nm)
      \<and> (\<forall>nm' \<in> set categories. nm' \<noteq> nm \<longrightarrow> bufferOf s' nm' = bufferOf serv nm')"
  proof cases
    case 1
    with assms(2) obtain buf prev' where
      p: "placeLoop g coilSize ''coil'' (\<lambda>v. uint16ToByteSlice (Encode f v ! 0)) off (Coils serv) 0
            (map Some es) = Inr (buf, prev', None)" and s': "s' = serv\<lparr>Coils := buf\<rparr>"
      by (auto simp add: setRegister_coil)
    from placeLoop_ascending [OF p] placeLoop_cap_mono [OF p] show ?thesis
      unfolding 1 s' sizeOf_simps by (simp add: bufferOf_def cap_def coilSize_def categories_def)
  next
    case 2
    with assms(2) obtain buf prev' where
      p: "placeLoop g discreteSize ''discrete'' (\<lambda>v. uint16ToByteSlice (Encode f v ! 0)) off
            (DiscreteInputs serv) 0 (map Some es) = Inr (buf, prev', None)"
      and s': "s' = serv\<lparr>DiscreteInputs := buf\<rparr>"
      by (auto simp add: setRegister_discrete)
    from placeLoop_ascending [OF p] placeLoop_cap_mono [OF p] show ?thesis
      unfolding 2 s' sizeOf_simps by (simp add: bufferOf_def cap_def discreteSize_def categories_def)
  next
    case 3
    with assms(2) obtain buf prev' where
      p: "placeLoop g inputSize ''input'' (Encode f) off (InputRegisters serv) 0
            (map Some es) = Inr (buf, prev', None)" and s': "s' = serv\<lparr>InputRegisters := buf\<rparr>"
      by (auto simp add: setRegister_input)
    from placeLoop_ascending [OF p] placeLoop_cap_mono [OF p] show ?thesis
      unfolding 3 s' sizeOf_simps by (simp add: bufferOf_def cap_def inputSize_def categories_def)
  next
    case 4
    with assms(2) obtain buf prev' where
      p: "placeLoop g holdingSize ''holding'' (Encode f) off (HoldingRegisters serv) 0
            (map Some es) = Inr (buf, prev', None)" and s': "s' = serv\<lparr>HoldingRegisters := buf\<rparr>"
      by (auto simp add: setRegister_holding)
    from placeLoop_ascending [OF p] placeLoop_cap_mono [OF p] show ?thesis
      unfolding 4 s' sizeOf_simps by (simp add: bufferOf_def cap_def holdingSize_def categories_def)
  qed
  then show "ascending (sizeOf nm) 0 (map (\<lambda>v. effective v off) es)"
    and "\<forall>v \<in> set es. effective v off \<le> int (length (bufferOf s' nm))"
    and "length (bufferOf serv nm) \<le> length (bufferOf s' nm)"
    and "\<forall>nm' \<in> set categories. nm' \<noteq> nm \<longrightarrow> bufferOf s' nm' = bufferOf serv nm'"
    by blast+
qed

text \<open>The entry that \<^verbatim>\<open>setRegister\<close> rejects after the entries before it were placed.\<close>

lemma setRegister_rejects:
  assumes "nm \<in> set categories"
    and "returned (setRegister f g serv (map Some pre) nm off) = Inr None"
    and "lastAddr pre off > wrap64 (effective v off - sizeOf nm)"
  shows "returned (setRegister f g serv (map Some pre @ Some v # post) nm off)
       = Inr (Some (WrongIncrement nm (effective v off)))"
proof -
  from assms(2) obtain s' where ok: "setRegister f g serv (map Some pre) nm off = Inr (s', None)"
    by (cases "setRegister f g serv (map Some pre) nm off") (auto simp add: returned_def)
  from category_cases [OF assms(1)] consider "nm = ''coil''" | "nm = ''discrete''"
    | "nm = ''input''" | "nm = ''holding''" by blast
  then show ?thesis
  proof cases
    case 1
    with ok obtain buf prev' where
      p: "placeLoop g coilSize ''coil'' (\<lambda>v. uint16ToByteSlice (Encode f v ! 0)) off (Coils serv) 0
            (map Some pre) = Inr (buf, prev', None)"
      by (auto simp add: setRegister_coil)
    from placeLoop_prev [OF p] have "prev' = lastAddr pre off" by (simp add: lastAddr_def)
    with assms(3) have "prev' > wrap64 (effective v off - coilSize)" by (simp add: 1 sizeOf_simps)
    from placeLoop_rejects [OF p this, of post] show ?thesis
      unfolding 1 by (simp add: setRegister_def returned_def)
  next
    case 2
    with ok obtain buf prev' where
      p: "placeLoop g discreteSize ''discrete'' (\<lambda>v. uint16ToByteSlice (Encode f v ! 0)) off
            (DiscreteInputs serv) 0 (map Some pre) = Inr (buf, prev', None)"
      by (auto simp add: setRegister_discrete)
    from placeLoop_prev [OF p] have "prev' = lastAddr pre off" by (simp add: lastAddr_def)
    with assms(3) have "prev' > wrap64 (effective v off - discreteSize)" by (simp add: 2 sizeOf_simps)
    from placeLoop_rejects [OF p this, of post] show ?thesis
      unfolding 2 by (simp add: setRegister_def returned_def)
  next
    case 3
    with ok obtain buf prev' where
      p: "placeLoop g inputSize ''input'' (Encode f) off (InputRegisters serv) 0
            (map Some pre) = Inr (buf, prev', None)"
      by (auto simp add: setRegister_input)
    from placeLoop_prev [OF p] have "prev' = lastAddr pre off" by (simp add: lastAddr_def)
    with assms(3) have "prev' > wrap64 (effective v off - inputSize)" by (simp add: 3 sizeOf_simps)
    from placeLoop_rejects [OF p this, of post] show ?thesis
      unfolding 3 by (simp add: setRegister_def returned_def)
  next
    case 4
    with ok obtain buf prev' where
      p: "placeLoop g holdingSize ''holding'' (Encode f) off (HoldingRegisters serv) 0
            (map Some pre) = Inr (buf, prev', None)"
      by (auto simp add: setRegister_holding)
    from placeLoop_prev [OF p] have "prev' = lastAddr pre off" by (simp add: lastAddr_def)
    with assms(3) have "prev' > wrap64 (effective v off - holdingSize)" by (simp add: 4 sizeOf_simps)
    from placeLoop_rejects [OF p this, of post] show ?thesis
      unfolding 4 by (simp add: setRegister_def returned_def)
  qed
qed

lemma lastAddr_nonneg:
  assumes "nm \<in> set categories"
    and "returned (setRegister f g serv (map Some pre) nm off) = Inr None"
  shows "0 \<le> lastAddr pre off"
proof (cases "pre = []")
  case True
  then show ?thesis by (simp add: lastAddr_def)
next
  case False
  from assms(2) obtain s' where ok: "setRegister f g serv (map Some pre) nm off = Inr (s', None)"
    by (cases "setRegister f g serv (map Some pre) nm off") (auto simp add: returned_def)
  from setRegister_success_facts(1) [OF assms(1) ok]
  have asc: "ascending (sizeOf nm) 0 (map (\<lambda>v. effective v off) pre)" .
  from False have k: "length pre - 1 < length (map (\<lambda>v. effective v off) pre)" by simp
  from ascending_first [OF asc _ k] sizeOf_bounds [of nm] False
  show ?thesis by (simp add: lastAddr_def last_conv_nth)
qed

lemma placeLoop_fits:
  assumes "placeLoop g sz nm u off s prev (map Some es) = Inr (s', prev', None)"
  shows "\<forall>v \<in> set es. nat (effective v off) + length (u v) \<le> cap s'"
  using assms
proof (induction es arbitrary: s prev)
  case Nil
  then show ?case by simp
next
  case (Cons v es)
  let ?a = "effective v off"
  let ?t = "s\<lparr>len := nat ?a\<rparr>"
  from placeLoop_Cons_success [of g sz nm u off s prev v "map Some es" s' prev'] Cons.prems
  have a: "0 \<le> ?a" "?a \<le> int (cap s)"
    and rest: "placeLoop g sz nm u off (append_slice g ?t (u v)) ?a (map Some es) = Inr (s', prev', None)"
    by simp_all
  have "len ?t \<le> cap ?t" using a by simp
  from append_slice_cap [OF this, of g "u v"] placeLoop_cap_mono [OF rest]
  have "nat ?a + length (u v) \<le> cap s'" by simp
  with Cons.IH [OF rest] show ?case by simp
qed

lemma length_Encode: "length (Encode f v) = 1 \<or> length (Encode f v) = 2"
  by (cases v) (simp_all add: Let_def)

lemma length_unitsOf: "1 \<le> length (unitsOf f nm v) \<and> length (unitsOf f nm v) \<le> 2"
  using length_Encode [of f v] by (auto simp add: unitsOf_def uint16ToByteSlice_def Let_def)

lemma length_unitsOf_bytes:
  "nm = ''coil'' \<or> nm = ''discrete'' \<Longrightarrow> length (unitsOf f nm v) = 2"
  by (auto simp add: unitsOf_def uint16ToByteSlice_def Let_def)

lemma setRegister_fits:
  assumes "nm \<in> set categories"
    and "setRegister f g serv (map Some es) nm off = Inr (s', None)"
  shows "\<forall>v \<in> set es. nat (effective v off) + length (unitsOf f nm v) \<le> length (bufferOf s' nm)"
proof -
  from category_cases [OF assms(1)] consider "nm = ''coil''" | "nm = ''discrete''"
    | "nm = ''input''" | "nm = ''holding''" by blast
  then show ?thesis
  proof cases
    case 1
    with assms(2) obtain buf prev' where
      p: "placeLoop g coilSize ''coil'' (\<lambda>v. uint16ToByteSlice (Encode f v ! 0)) off (Coils serv) 0
            (map Some es) = Inr (buf, prev', None)" and s': "s' = serv\<lparr>Coils := buf\<rparr>"
      by (auto simp add: setRegister_coil)
    from placeLoop_fits [OF p] show ?thesis
      unfolding 1 s' bufferOf_simps unitsOf_simps by (simp add: cap_def)
  next
    case 2
    with assms(2) obtain buf prev' where
      p: "placeLoop g discreteSize ''discrete'' (\<lambda>v. uint16ToByteSlice (Encode f v ! 0)) off
            (DiscreteInputs serv) 0 (map Some es) = Inr (buf, prev', None)"
      and s': "s' = serv\<lparr>DiscreteInputs := buf\<rparr>"
      by (auto simp add: setRegister_discrete)
    from placeLoop_fits [OF p] show ?thesis
      unfolding 2 s' bufferOf_simps unitsOf_simps by (simp add: cap_def)
  next
    case 3
    with assms(2) obtain buf prev' where
      p: "placeLoop g inputSize ''input'' (Encode f) off (InputRegisters serv) 0
            (map Some es) = Inr (buf, prev', None)" and s': "s' = serv\<lparr>InputRegisters := buf\<rparr>"
      by (auto simp add: setRegister_input)
    from placeLoop_fits [OF p] show ?thesis
      unfolding 3 s' bufferOf_simps unitsOf_simps by (simp add: cap_def)
  next
    case 4
    with assms(2) obtain buf prev' where
      p: "placeLoop g holdingSize ''holding'' (Encode f) off (HoldingRegisters serv) 0
            (map Some es) = Inr (buf, prev', None)" and s': "s' = serv\<lparr>HoldingRegisters := buf\<rparr>"
      by (auto simp add: setRegister_holding)
    from placeLoop_fits [OF p] show ?thesis
      unfolding 4 s' bufferOf_simps unitsOf_simps by (simp add: cap_def)
  qed
qed

text \<open>
  A unit of an entry stays in the buffer when the next entry starts after it.
\<close>

lemma setRegister_unit_kept:
  assumes cat: "nm \<in> set categories"
    and ok: "setRegister f g serv (map Some es) nm off = Inr (s', None)"
    and k: "k < length es" and j: "j < length (unitsOf f nm (es ! k))"
    and nxt: "Suc k < length es \<longrightarrow> effective (es ! k) off + int j < effective (es ! Suc k) off"
  shows "nat (effective (es ! k) off) + j < length (bufferOf s' nm)
       \<and> bufferOf s' nm ! (nat (effective (es ! k) off) + j) = unitsOf f nm (es ! k) ! j"
proof -
  let ?eff = "\<lambda>v. effective v off"
  let ?ws = "map (\<lambda>v. (nat (?eff v), unitsOf f nm v)) es"
  let ?i = "nat (?eff (es ! k)) + j"
  note asc = setRegister_success_facts(1) [OF cat ok]
  have sz: "0 \<le> sizeOf nm" using sizeOf_bounds by simp
  have nonneg: "\<And>n. n < length es \<Longrightarrow> 0 \<le> ?eff (es ! n)"
  proof -
    fix n assume "n < length es"
    with ascending_first [OF asc sz, of n] sz show "0 \<le> ?eff (es ! n)" by simp
  qed
  have inside: "?i < length (bufferOf s' nm)"
  proof -
    from k have "es ! k \<in> set es" by simp
    with setRegister_fits [OF cat ok]
    have "nat (?eff (es ! k)) + length (unitsOf f nm (es ! k)) \<le> length (bufferOf s' nm)"
      by blast
    with j show ?thesis by simp
  qed
  have later: "\<forall>k'. k < k' \<and> k' < length ?ws \<longrightarrow> ?i < fst (?ws ! k')"
  proof (intro allI impI)
    fix k' assume k': "k < k' \<and> k' < length ?ws"
    then have sk: "Suc k < length es" by simp
    with nxt have first: "?eff (es ! k) + int j < ?eff (es ! Suc k)" by simp
    have "?eff (es ! Suc k) \<le> ?eff (es ! k')"
    proof (cases "k' = Suc k")
      case True
      then show ?thesis by simp
    next
      case False
      with k' have "Suc k < k'" "k' < length (map ?eff es)" by simp_all
      from ascending_nth [OF asc sz this] sz k' sk show ?thesis by simp
    qed
    with first nonneg [OF k] k' show "?i < fst (?ws ! k')" by simp
  qed
  have "overlay ?ws ?i = Some (snd (?ws ! k) ! (?i - fst (?ws ! k)))"
    by (rule overlay_last_cover) (use k j later in simp_all)
  with setRegister_cells [OF cat ok inside] k inside show ?thesis by simp
qed

section \<open>Further facts on setRegister\<close>

lemma setRegister_Nil:
  "nm \<in> set categories \<Longrightarrow> setRegister f g serv [] nm off = Inr (serv, None)"
  by (auto simp add: setRegister_def categories_def)

lemma placeLoop_no_nil:
  "placeLoop g sz nm u off s prev data = Inr (s', prev', None) \<Longrightarrow> None \<notin> set data"
proof (induction data arbitrary: s prev)
  case Nil
  then show ?case by simp
next
  case (Cons x xs)
  show ?case
  proof (cases x)
    case None
    with Cons.prems show ?thesis by simp
  next
    case (Some v)
    with Cons.prems obtain t where
      "placeLoop g sz nm u off (append_slice g t (u v)) (wrap64 (Address v + off)) xs = Inr (s', prev', None)"
      by (auto simp add: Let_def split: if_splits sum.splits)
    from Cons.IH [OF this] Some show ?thesis by simp
  qed
qed

lemma setRegister_no_nil:
  assumes "setRegister f g serv data nm off = Inr (s', None)"
  shows "\<exists>es. data = map Some es"
proof -
  have "None \<notin> set data"
    using assms
    by (auto simp add: setRegister_def split: if_splits sum.splits dest: placeLoop_no_nil)
  then have "data = map Some (map the data)"
    by (induction data) auto
  then show ?thesis by blast
qed

lemma Some_in_map: "Some v \<in> set (map Some es) \<longleftrightarrow> v \<in> set es"
  by auto

lemma effective_upper: "effective v off < 2 ^ 63"
  unfolding effective_def by (rule wrap64_upper)

lemma setRegister_success_lower:
  assumes "nm \<in> set categories"
    and "setRegister f g serv (map Some es) nm off = Inr (s', None)"
  shows "\<forall>v \<in> set es. sizeOf nm \<le> effective v off"
proof
  fix v assume "v \<in> set es"
  then obtain k where k: "k < length es" "es ! k = v" by (auto simp add: in_set_conv_nth)
  from ascending_first [OF setRegister_success_facts(1) [OF assms] _ , of k] sizeOf_bounds [of nm] k
  show "sizeOf nm \<le> effective v off" by simp
qed

lemma unitsOf_words_length:
  "nm = ''input'' \<or> nm = ''holding'' \<Longrightarrow> length (unitsOf f nm v) \<le> 2"
  using length_unitsOf [of f nm v] by simp

lemma bufferOf_NewServer: "bufferOf NewServer nm = replicate 65536 0"
  by (simp add: bufferOf_def NewServer_def)


lemma two_entries_rejected:
  assumes cat: "nm \<in> set categories"
    and adj: "Address e2 = Address e1 + sizeOf nm - 1"
    and low: "- (2 ^ 63) + sizeOf nm \<le> effective e1 off"
    and high: "effective e1 off \<le> int (length (bufferOf serv nm))"
  shows "returned (setRegister f g serv [Some e1, Some e2] nm off)
       = Inr (Some (WrongIncrement nm
           (if effective e1 off < sizeOf nm then effective e1 off else effective e2 off)))"
proof (cases "effective e1 off < sizeOf nm")
  case True
  from low True have "wrap64 (effective e1 off - sizeOf nm) = effective e1 off - sizeOf nm"
    by (intro wrap64_id) simp_all
  with True have "lastAddr [] off > wrap64 (effective e1 off - sizeOf nm)"
    by (simp add: lastAddr_def)
  from setRegister_rejects [of nm f g serv "[]" off e1 "[Some e2]", OF cat _ this] True
  show ?thesis by (simp add: setRegister_Nil [OF cat] returned_def)
next
  case False
  let ?a = "effective e1 off"
  let ?sz = "sizeOf nm"
  have sz: "0 \<le> ?sz" "?sz \<le> 2" using sizeOf_bounds [of nm] by simp_all
  have szcases: "?sz = 1 \<or> ?sz = 2"
    by (simp add: sizeOf_def coilSize_def discreteSize_def inputSize_def holdingSize_def)
  from False have a: "?sz \<le> ?a" by simp
  have up: "?a < 2 ^ 63" by (rule effective_upper)
  obtain s' where "setRegister f g serv (map Some [e1]) nm off = Inr (s', None)"
    using setRegister_succeeds [of nm off "[e1]" serv f g] cat a high by auto
  then have placed: "returned (setRegister f g serv (map Some [e1]) nm off) = Inr None"
    by (simp add: returned_def)
  have e2: "effective e2 off = wrap64 (?a + (?sz - 1))"
  proof -
    have "effective e2 off = wrap64 ((Address e1 + off) + (?sz - 1))"
      by (simp add: effective_def adj algebra_simps)
    also have "\<dots> = wrap64 (wrap64 (Address e1 + off) + (?sz - 1))"
      by (simp only: wrap64_add_left)
    finally show ?thesis by (simp add: effective_def)
  qed
  have "?a > wrap64 (effective e2 off - ?sz)"
  proof (cases "?a + (?sz - 1) < 2 ^ 63")
    case True
    with a sz have "wrap64 (?a + (?sz - 1)) = ?a + (?sz - 1)" by (intro wrap64_id) simp_all
    with e2 have "effective e2 off - ?sz = ?a - 1" by simp
    moreover from a sz up have "wrap64 (?a - 1) = ?a - 1" by (intro wrap64_id) simp_all
    ultimately show ?thesis by simp
  next
    case False
    with up szcases have v: "?sz = 2" "?a = 2 ^ 63 - 1" by auto
    with e2 show ?thesis by (simp add: wrap64_def)
  qed
  then have "lastAddr [e1] off > wrap64 (effective e2 off - ?sz)" by (simp add: lastAddr_def)
  from setRegister_rejects [of nm f g serv "[e1]" off e2 "[]", OF cat placed this] False
  show ?thesis by simp
qed

lemma gaps_stay_zero_entries:
  assumes "nm \<in> set categories"
    and "setRegister f32 spare NewServer (map Some es) nm addrOffset = Inr (s', None)"
  shows "(\<forall>i < length (bufferOf s' nm).
          (\<forall>v \<in> set es. \<not> (effective v addrOffset \<le> int i
              \<and> int i < effective v addrOffset + int (length (unitsOf f32 nm v)))) \<longrightarrow>
          bufferOf s' nm ! i = 0)
     \<and> 65536 \<le> length (bufferOf s' nm)
     \<and> (\<forall>nm' \<in> set categories. nm' \<noteq> nm \<longrightarrow> bufferOf s' nm' = replicate 65536 0)"
proof (intro conjI allI impI)
  fix i assume i: "i < length (bufferOf s' nm)"
    and free: "\<forall>v \<in> set es. \<not> (effective v addrOffset \<le> int i
              \<and> int i < effective v addrOffset + int (length (unitsOf f32 nm v)))"
  let ?ws = "map (\<lambda>v. (nat (effective v addrOffset), unitsOf f32 nm v)) es"
  have "\<forall>w \<in> set ?ws. \<not> (fst w \<le> i \<and> i < fst w + length (snd w))"
  proof
    fix w assume "w \<in> set ?ws"
    then obtain v where v: "v \<in> set es" "w = (nat (effective v addrOffset), unitsOf f32 nm v)"
      by auto
    with free have "\<not> (effective v addrOffset \<le> int i
        \<and> int i < effective v addrOffset + int (length (unitsOf f32 nm v)))" by blast
    moreover from setRegister_success_lower [OF assms] v(1) sizeOf_bounds [of nm]
    have "0 \<le> effective v addrOffset" by fastforce
    ultimately show "\<not> (fst w \<le> i \<and> i < fst w + length (snd w))" using v(2) by auto
  qed
  from overlay_None [OF this] setRegister_cells [OF assms i]
  show "bufferOf s' nm ! i = 0" by (simp add: bufferOf_NewServer)
next
  from setRegister_success_facts(3) [OF assms] show "65536 \<le> length (bufferOf s' nm)"
    by (simp add: bufferOf_NewServer)
next
  from setRegister_success_facts(4) [OF assms]
  show "\<forall>nm' \<in> set categories. nm' \<noteq> nm \<longrightarrow> bufferOf s' nm' = replicate 65536 0"
    by (simp add: bufferOf_NewServer)
qed


text \<open>The slice itself ends after the last entry of a pass that succeeded.\<close>

lemma placeLoop_len:
  assumes "placeLoop g sz nm u off s prev (map Some es) = Inr (s', prev', None)" and "es \<noteq> []"
  shows "len s' = nat (effective (last es) off) + length (u (last es))"
  using assms
proof (induction es arbitrary: s prev)
  case Nil
  then show ?case by simp
next
  case (Cons v es)
  let ?s1 = "append_slice g (s\<lparr>len := nat (effective v off)\<rparr>) (u v)"
  from placeLoop_Cons_success [of g sz nm u off s prev v "map Some es" s' prev'] Cons.prems(1)
  have rest: "placeLoop g sz nm u off ?s1 (effective v off) (map Some es) = Inr (s', prev', None)"
    by simp
  show ?case
  proof (cases "es = []")
    case True
    with rest have "placeLoop g sz nm u off ?s1 (effective v off) [] = Inr (s', prev', None)"
      by (simp only: list.map)
    then have "?s1 = s'" by auto
    then have "len s' = len ?s1" by (rule arg_cong [OF sym])
    also have "\<dots> = nat (effective v off) + length (u v)" by (simp add: append_slice_len)
    finally show ?thesis using True by simp
  next
    case False
    from Cons.IH [OF rest False] False show ?thesis by simp
  qed
qed

lemma setRegister_len:
  assumes "nm \<in> set categories"
    and "setRegister f g serv (map Some es) nm off = Inr (s', None)" and "es \<noteq> []"
  shows "lengthOf s' nm = nat (effective (last es) off) + length (unitsOf f nm (last es))"
proof -
  from category_cases [OF assms(1)] consider "nm = ''coil''" | "nm = ''discrete''"
    | "nm = ''input''" | "nm = ''holding''" by blast
  then show ?thesis
  proof cases
    case 1
    with assms(2) obtain buf prev' where
      p: "placeLoop g coilSize ''coil'' (\<lambda>v. uint16ToByteSlice (Encode f v ! 0)) off (Coils serv) 0
            (map Some es) = Inr (buf, prev', None)" and s': "s' = serv\<lparr>Coils := buf\<rparr>"
      by (auto simp add: setRegister_coil)
    from placeLoop_len [OF p assms(3)] show ?thesis
      unfolding 1 s' unitsOf_simps by (simp add: lengthOf_def)
  next
    case 2
    with assms(2) obtain buf prev' where
      p: "placeLoop g discreteSize ''discrete'' (\<lambda>v. uint16ToByteSlice (Encode f v ! 0)) off
            (DiscreteInputs serv) 0 (map Some es) = Inr (buf, prev', None)"
      and s': "s' = serv\<lparr>DiscreteInputs := buf\<rparr>"
      by (auto simp add: setRegister_discrete)
    from placeLoop_len [OF p assms(3)] show ?thesis
      unfolding 2 s' unitsOf_simps by (simp add: lengthOf_def)
  next
    case 3
    with assms(2) obtain buf prev' where
      p: "placeLoop g inputSize ''input'' (Encode f) off (InputRegisters serv) 0
            (map Some es) = Inr (buf, prev', None)" and s': "s' = serv\<lparr>InputRegisters := buf\<rparr>"
      by (auto simp add: setRegister_input)
    from placeLoop_len [OF p assms(3)] show ?thesis
      unfolding 3 s' unitsOf_simps by (simp add: lengthOf_def)
  next
    case 4
    with assms(2) obtain buf prev' where
      p: "placeLoop g holdingSize ''holding'' (Encode f) off (HoldingRegisters serv) 0
            (map Some es) = Inr (buf, prev', None)" and s': "s' = serv\<lparr>HoldingRegisters := buf\<rparr>"
      by (auto simp add: setRegister_holding)
    from placeLoop_len [OF p assms(3)] show ?thesis
      unfolding 4 s' unitsOf_simps by (simp add: lengthOf_def)
  qed
qed

lemma setRegister_other_length:
  assumes "nm \<in> set categories"
    and "setRegister f g serv (map Some es) nm off = Inr (s', None)"
  shows "\<forall>nm' \<in> set categories. nm' \<noteq> nm \<longrightarrow> lengthOf s' nm' = lengthOf serv nm'"
proof -
  from category_cases [OF assms(1)] consider "nm = ''coil''" | "nm = ''discrete''"
    | "nm = ''input''" | "nm = ''holding''" by blast
  then show ?thesis
  proof cases
    case 1
    with assms(2) obtain buf where "s' = serv\<lparr>Coils := buf\<rparr>"
      by (auto simp add: setRegister_coil)
    then show ?thesis unfolding 1 by (simp add: lengthOf_def categories_def)
  next
    case 2
    with assms(2) obtain buf where "s' = serv\<lparr>DiscreteInputs := buf\<rparr>"
      by (auto simp add: setRegister_discrete)
    then show ?thesis unfolding 2 by (simp add: lengthOf_def categories_def)
  next
    case 3
    with assms(2) obtain buf where "s' = serv\<lparr>InputRegisters := buf\<rparr>"
      by (auto simp add: setRegister_input)
    then show ?thesis unfolding 3 by (simp add: lengthOf_def categories_def)
  next
    case 4
    with assms(2) obtain buf where "s' = serv\<lparr>HoldingRegisters := buf\<rparr>"
      by (auto simp add: setRegister_holding)
    then show ?thesis unfolding 4 by (simp add: lengthOf_def categories_def)
  qed
qed

lemma lengthOf_NewServer: "lengthOf NewServer nm = 65536"
  by (simp add: lengthOf_def NewServer_def)

section \<open>The example runs\<close>

lemmas run_simps = setRegister_def coilSize_def discreteSize_def inputSize_def holdingSize_def
  go_int_def trunc_def wrap64_def reslice_def NewServer_def cap_def append_slice_def
  uint16ToByteSlice_def go_uint16_def Let_def exampleBits_def noSpare_def returned_def

lemmas eff_simps = effective_def go_int_def trunc_def wrap64_def

lemma run_holding_101:
  "setRegister exampleBits noSpare NewServer [Some (floatAt 101)] ''holding'' (- 1)
    = Inr (NewServer\<lparr>HoldingRegisters :=
        \<lparr>arr = replicate 100 0 @ [0x4049, 0x0E56] @ replicate 65434 0, len = 102\<rparr>\<rparr>, None)"
  by (simp add: run_simps)

lemma run_holding_101_103:
  "setRegister exampleBits noSpare NewServer [Some (floatAt 101), Some (floatAt 103)] ''holding'' (- 1)
    = Inr (NewServer\<lparr>HoldingRegisters :=
        \<lparr>arr = replicate 100 0 @ [0x4049, 0x0E56, 0x4049, 0x0E56] @ replicate 65432 0, len = 104\<rparr>\<rparr>, None)"
  by (simp add: run_simps)

lemma run_holding_101_105:
  "setRegister exampleBits noSpare NewServer [Some (floatAt 101), Some (floatAt 105)] ''holding'' (- 1)
    = Inr (NewServer\<lparr>HoldingRegisters :=
        \<lparr>arr = replicate 100 0 @ [0x4049, 0x0E56, 0, 0, 0x4049, 0x0E56] @ replicate 65430 0, len = 106\<rparr>\<rparr>, None)"
  by (simp add: run_simps, simp add: numeral_2_eq_2)


lemma run_coil_3_6:
  "setRegister exampleBits noSpare NewServer [Some (coilAt 0 3), Some (coilAt 0 6)] ''coil'' (- 1)
    = Inr (NewServer\<lparr>Coils := \<lparr>arr = [0, 0, 0, 1, 0, 0, 1] @ replicate 65529 0, len = 7\<rparr>\<rparr>, None)"
  by (simp add: run_simps, simp add: numeral_2_eq_2 numeral_3_eq_3)

section \<open>The claims\<close>

text \<open>
  In the statements \<open>registryData\<close> is any list that \<^verbatim>\<open>setRegister\<close> can receive, nil
  entries included, and \<open>map Some es\<close> is a list of encoders, none of them nil.
\<close>

subsection \<open>C2: what the four float codecs return\<close>

text \<open>
  Claim C2. For every input number, with \<open>bits\<close> the value of
  \<^verbatim>\<open>Float32bits(float32(n))\<close>, \<open>high16 = bits >> 16\<close>, \<open>low16 = bits & 0xFFFF\<close> and
  \<open>swap(w) = (w << 8 | w >> 8) & 0xFFFF\<close>: \<open>Encode\<close> of float32LittleWordBigEndian
  returns \<open>[low16, high16]\<close>, of float32BigWordBigEndian \<open>[high16, low16]\<close>, of
  float32LittleWordLittleEndian \<open>[swap low16, swap high16]\<close> and of
  float32BigWordLittleEndian \<open>[swap high16, swap low16]\<close>. The words of the code are
  read as integers and compared with the integer formulas.
\<close>

theorem float32_Encode_outputs:
  "map uint (Encode f32 (float32LittleWordBigEndian d)) =
     [low16 (f32 (Number d)), high16 (f32 (Number d))]
   \<and> map uint (Encode f32 (float32BigWordBigEndian d)) =
     [high16 (f32 (Number d)), low16 (f32 (Number d))]
   \<and> map uint (Encode f32 (float32LittleWordLittleEndian d)) =
     [swap (low16 (f32 (Number d))), swap (high16 (f32 (Number d)))]
   \<and> map uint (Encode f32 (float32BigWordLittleEndian d)) =
     [swap (high16 (f32 (Number d))), swap (low16 (f32 (Number d)))]"
  by (simp add: Let_def uint_low low16_drop_bit uint_uint16ToLittleEndian)

subsection \<open>C3: the round trip of the float codecs\<close>

text \<open>
  Claim C3. For each of the four float codecs, encoding and then reassembling (undoing
  the byte swap inside each word and the word order, and joining the two words) gives
  back the 32-bit pattern that was encoded, whatever the pattern; and the byte swap is
  an involution on 16-bit words, both as the formula of the specification and as
  \<^verbatim>\<open>uint16ToLittleEndian\<close>. A finite \<^verbatim>\<open>float32\<close> is determined by its bit pattern,
  so the value is reproduced exactly.
\<close>

theorem float32_round_trip:
  "reassemble (float32LittleWordBigEndian d) (Encode f32 (float32LittleWordBigEndian d))
     = Some (f32 (Number d))
   \<and> reassemble (float32BigWordBigEndian d) (Encode f32 (float32BigWordBigEndian d))
     = Some (f32 (Number d))
   \<and> reassemble (float32LittleWordLittleEndian d) (Encode f32 (float32LittleWordLittleEndian d))
     = Some (f32 (Number d))
   \<and> reassemble (float32BigWordLittleEndian d) (Encode f32 (float32BigWordLittleEndian d))
     = Some (f32 (Number d))
   \<and> swap (swap (uint (w :: uint16))) = uint w
   \<and> uint16ToLittleEndian (uint16ToLittleEndian w) = w"
proof -
  have "swap (swap (uint w)) = uint w"
    by (simp only: uint_uint16ToLittleEndian [symmetric] uint16ToLittleEndian_involution)
  then show ?thesis
    by (simp add: Let_def rejoin_split unswap_uint16ToLittleEndian uint16ToLittleEndian_involution)
qed

subsection \<open>C7: the single-word big-endian codec\<close>

text \<open>
  With the number 256 the shift inside 16 bits drops the value: \<^verbatim>\<open>uint16(256) << 8\<close> is
  0, the word is \<open>0x0001\<close>, and its upper 8 bits are 0, not the integer value 256.
\<close>

theorem wordInt16BigEndian_counterexample:
  "trunc 256 = 256
   \<and> Encode exampleBits (coilAt 256 0) = [0x0001]
   \<and> uint (Encode exampleBits (coilAt 256 0) ! 0) div 256 = 0"
  by (simp add: go_uint16_def trunc_def)

text \<open>
  Claim C7, as the code has it. For every input number, \<open>Encode\<close> of wordInt16BigEndian
  returns the single word \<^verbatim>\<open>(uint16(n) << 8) | 0x0001\<close>, computed in 16 bits. As an
  integer the word is the truncation of \<open>n\<close> modulo 256, times 256, plus 1 when the
  truncation fits 32 bits, and 1 otherwise. So its lower 8 bits are 1 and its upper 8 bits
  are the low 8 bits of \<^verbatim>\<open>uint16(n)\<close>, which is the truncation itself when that lies in
  0..65535; the upper 8 bits are the integer value itself when it lies in 0..255. With
  the number 1 the result is \<open>[0x0101]\<close>.
\<close>

theorem wordInt16BigEndian_Encode:
  "Encode f32 (wordInt16BigEndian w) = [push_bit 8 (go_uint16 (Number w)) OR 0x0001]
   \<and> map uint (Encode f32 (wordInt16BigEndian w)) =
       [if - (2 ^ 31) \<le> trunc (Number w) \<and> trunc (Number w) < 2 ^ 31
        then (trunc (Number w) mod 256) * 256 + 1 else 1]
   \<and> uint (Encode f32 (wordInt16BigEndian w) ! 0) mod 256 = 1
   \<and> uint (Encode f32 (wordInt16BigEndian w) ! 0) div 256 = uint (go_uint16 (Number w)) mod 256
   \<and> (0 \<le> trunc (Number w) \<and> trunc (Number w) \<le> 65535 \<longrightarrow>
        uint (go_uint16 (Number w)) = trunc (Number w))
   \<and> (0 \<le> trunc (Number w) \<and> trunc (Number w) \<le> 255 \<longrightarrow>
        uint (Encode f32 (wordInt16BigEndian w) ! 0) div 256 = trunc (Number w))
   \<and> Encode f32 (wordInt16BigEndian \<lparr>Type = ''wordInt16BigEndian'', Number = 1, RegAddr = 0\<rparr>)
       = [0x0101]"
proof -
  let ?t = "trunc (Number w)"
  let ?x = "Encode f32 (wordInt16BigEndian w) ! 0"
  have word: "uint ?x = (if - (2 ^ 31) \<le> ?t \<and> ?t < 2 ^ 31 then (?t mod 256) * 256 + 1 else 1)"
  proof (cases "- (2 ^ 31) \<le> ?t \<and> ?t < 2 ^ 31")
    case True
    then have "?x = push_bit 8 (word_of_int ?t :: uint16) OR 1"
      by (simp add: go_uint16_def Let_def)
    with True show ?thesis by (simp only: uint_shifted_or_one simp_thms if_True)
  next
    case False
    then have "?x = 1" by (auto simp add: go_uint16_def Let_def)
    then have "uint ?x = 1" by simp
    with False show ?thesis by (simp only: if_not_P if_False)
  qed
  have low: "uint ?x mod 256 = 1" unfolding word by simp
  have conv: "uint (go_uint16 (Number w)) mod 256
      = (if - (2 ^ 31) \<le> ?t \<and> ?t < 2 ^ 31 then ?t mod 256 else 0)"
    unfolding uint_go_uint16 by (simp add: mod_mod_cancel)
  have high: "uint ?x div 256 = uint (go_uint16 (Number w)) mod 256"
    unfolding word conv by simp
  have pin: "0 \<le> ?t \<and> ?t \<le> 65535 \<longrightarrow> uint (go_uint16 (Number w)) = ?t"
    unfolding uint_go_uint16 by simp
  have val: "0 \<le> ?t \<and> ?t \<le> 255 \<longrightarrow> uint ?x div 256 = ?t"
    unfolding word by simp
  have one: "Encode f32 (wordInt16BigEndian \<lparr>Type = ''wordInt16BigEndian'', Number = 1, RegAddr = 0\<rparr>)
      = [0x0101]"
    by (simp add: go_uint16_def trunc_def)
  have form: "Encode f32 (wordInt16BigEndian w) = [push_bit 8 (go_uint16 (Number w)) OR 0x0001]"
    by simp
  have lst: "map uint (Encode f32 (wordInt16BigEndian w)) = [uint ?x]" by simp
  from form lst word low high pin val one show ?thesis by (simp only: simp_thms)
qed

theorem wordInt16BigEndian_Encode_witness:
  "0 \<le> trunc 1 \<and> trunc 1 \<le> 255 \<and> trunc 1 = 1
   \<and> uint (go_uint16 1) = 1
   \<and> uint (Encode exampleBits (coilAt 1 0) ! 0) div 256 = 1
   \<and> uint (Encode exampleBits (coilAt 1 0) ! 0) mod 256 = 1"
proof -
  have h: "0 \<le> trunc 1 \<and> trunc 1 \<le> 255" "0 \<le> trunc 1 \<and> trunc 1 \<le> 65535" "trunc 1 = 1"
    by (simp_all add: trunc_def)
  from wordInt16BigEndian_Encode [where ?f32.0 = exampleBits and w = "\<lparr>Type = ''wordInt16BigEndian'', Number = 1, RegAddr = 0\<rparr>"] h
  show ?thesis by simp
qed

subsection \<open>C8: the encoder factory\<close>

text \<open>
  \<^verbatim>\<open>NewEncoder\<close> has no error result. On a record whose \<^verbatim>\<open>type\<close> is a string
  outside the six it returns the nil interface, and on a record with a recognized
  \<^verbatim>\<open>type\<close> but no \<^verbatim>\<open>number\<close> the type assertion panics.
\<close>

theorem NewEncoder_counterexample:
  "NewEncoder [''type'' \<mapsto> JString ''int32BigEndian'', ''number'' \<mapsto> JFloat64 1, ''regAddr'' \<mapsto> JFloat64 0]
     = Inr None
   \<and> ''wordInt16BigEndian'' \<in> set recognized
   \<and> NewEncoder [''type'' \<mapsto> JString ''wordInt16BigEndian'', ''regAddr'' \<mapsto> JFloat64 0]
     = Inl TypeAssertion"
  by (simp add: NewEncoder_def NewWordInt16BigEndian_def assertFields_def recognized_def)

text \<open>
  Claim C8, as the code has it. For a raw record whose \<^verbatim>\<open>type\<close> is one of the six
  recognized strings and whose \<^verbatim>\<open>number\<close> and \<^verbatim>\<open>regAddr\<close> are numbers,
  \<^verbatim>\<open>NewEncoder\<close> returns an encoder of the matching kind that carries the three
  fields. For a record whose \<^verbatim>\<open>type\<close> is a string outside the six it returns nil
  and no error. A recognized \<^verbatim>\<open>type\<close> with a missing or non-numeric \<^verbatim>\<open>number\<close>
  or \<^verbatim>\<open>regAddr\<close>, and a missing or non-string \<^verbatim>\<open>type\<close>, end in the panic of a
  failed type assertion.
\<close>

theorem NewEncoder_dispatch:
  "(m ''type'' = Some (JString t) \<and> t \<in> set recognized \<and> m ''number'' = Some (JFloat64 n)
      \<and> m ''regAddr'' = Some (JFloat64 a) \<longrightarrow>
      (\<exists>v. NewEncoder m = Inr (Some v) \<and> kindName v = t
          \<and> descriptorOf v = \<lparr>Type = t, Number = n, RegAddr = a\<rparr>))
   \<and> (m ''type'' = Some (JString t) \<and> t \<notin> set recognized \<longrightarrow> NewEncoder m = Inr None)
   \<and> (m ''type'' = Some (JString t) \<and> t \<in> set recognized
        \<and> ((\<forall>x. m ''number'' \<noteq> Some (JFloat64 x)) \<or> (\<forall>x. m ''regAddr'' \<noteq> Some (JFloat64 x))) \<longrightarrow>
      NewEncoder m = Inl TypeAssertion)
   \<and> ((\<forall>x. m ''type'' \<noteq> Some (JString x)) \<longrightarrow> NewEncoder m = Inl TypeAssertion)"
proof (intro conjI impI)
  assume h: "m ''type'' = Some (JString t) \<and> t \<in> set recognized \<and> m ''number'' = Some (JFloat64 n)
      \<and> m ''regAddr'' = Some (JFloat64 a)"
  then have f: "assertFields m = Inr \<lparr>Type = t, Number = n, RegAddr = a\<rparr>"
    by (simp add: assertFields_def)
  from h have "t \<in> set recognized" by simp
  then show "\<exists>v. NewEncoder m = Inr (Some v) \<and> kindName v = t
      \<and> descriptorOf v = \<lparr>Type = t, Number = n, RegAddr = a\<rparr>"
    unfolding NewEncoder_recognized [of m t, OF conjunct1 [OF h] conjunct1 [OF conjunct2 [OF h]]] f
    by (auto simp add: recognized_def)
next
  assume "m ''type'' = Some (JString t) \<and> t \<notin> set recognized"
  then show "NewEncoder m = Inr None"
    by (simp add: NewEncoder_def recognized_def)
next
  assume h: "m ''type'' = Some (JString t) \<and> t \<in> set recognized
        \<and> ((\<forall>x. m ''number'' \<noteq> Some (JFloat64 x)) \<or> (\<forall>x. m ''regAddr'' \<noteq> Some (JFloat64 x)))"
  then have "assertFields m = Inl TypeAssertion"
    by (auto simp add: assertFields_def assertFloat64_Inl split: sum.splits dest: assertFloat64_panic)
  then show "NewEncoder m = Inl TypeAssertion"
    unfolding NewEncoder_recognized [of m t, OF conjunct1 [OF h] conjunct1 [OF conjunct2 [OF h]]]
    by simp
next
  assume "\<forall>x. m ''type'' \<noteq> Some (JString x)"
  then show "NewEncoder m = Inl TypeAssertion"
    by (simp add: NewEncoder_def assertString_Inl)
qed

theorem NewEncoder_dispatch_witness:
  "NewEncoder [''type'' \<mapsto> JString ''float32BigWordBigEndian'', ''number'' \<mapsto> JFloat64 3.1415,
       ''regAddr'' \<mapsto> JFloat64 103] = Inr (Some (floatAt 103))
   \<and> NewEncoder [''type'' \<mapsto> JString ''int32BigEndian'', ''number'' \<mapsto> JFloat64 1,
       ''regAddr'' \<mapsto> JFloat64 0] = Inr None
   \<and> NewEncoder [''type'' \<mapsto> JString ''wordInt16BigEndian'', ''regAddr'' \<mapsto> JFloat64 0]
       = Inl TypeAssertion
   \<and> NewEncoder [''type'' \<mapsto> JFloat64 1, ''number'' \<mapsto> JFloat64 1, ''regAddr'' \<mapsto> JFloat64 0]
       = Inl TypeAssertion"
proof -
  let ?a = "[''type'' \<mapsto> JString ''float32BigWordBigEndian'', ''number'' \<mapsto> JFloat64 3.1415,
       ''regAddr'' \<mapsto> JFloat64 103]"
  let ?b = "[''type'' \<mapsto> JString ''int32BigEndian'', ''number'' \<mapsto> JFloat64 1,
       ''regAddr'' \<mapsto> JFloat64 0]"
  let ?c = "[''type'' \<mapsto> JString ''wordInt16BigEndian'', ''regAddr'' \<mapsto> JFloat64 0]"
  let ?d = "[''type'' \<mapsto> JFloat64 1, ''number'' \<mapsto> JFloat64 1, ''regAddr'' \<mapsto> JFloat64 0]"
  from NewEncoder_dispatch [where m = ?a and t = "''float32BigWordBigEndian''" and n = "3.1415" and a = 103]
  obtain v where "NewEncoder ?a = Inr (Some v)" "kindName v = ''float32BigWordBigEndian''"
    "descriptorOf v = \<lparr>Type = ''float32BigWordBigEndian'', Number = 3.1415, RegAddr = 103\<rparr>"
    by (auto simp add: recognized_def)
  with kind_determines [of v] have a: "NewEncoder ?a = Inr (Some (floatAt 103))" by simp
  from NewEncoder_dispatch [where m = ?b and t = "''int32BigEndian''"]
  have b: "NewEncoder ?b = Inr None" by (simp add: recognized_def)
  from NewEncoder_dispatch [where m = ?c and t = "''wordInt16BigEndian''"]
  have c: "NewEncoder ?c = Inl TypeAssertion" by (simp add: recognized_def)
  from NewEncoder_dispatch [where m = ?d]
  have d: "NewEncoder ?d = Inl TypeAssertion" by simp
  from a b c d show ?thesis by blast
qed

subsection \<open>C6: a negative effective address\<close>

text \<open>
  The holding entry with address 0 under offset -1 has the effective address -1; the pass
  returns the wrong-increment error, which is not \<open>AddressOutOfRange\<close>. The effective
  address \<open>-2^63\<close> makes the subtraction of the check wrap around: the check passes
  and the slice expression panics.
\<close>

theorem negative_address_counterexample:
  "effective (floatAt 0) (- 1) = - 1
   \<and> returned (setRegister exampleBits noSpare NewServer [Some (floatAt 0)] ''holding'' (- 1))
       = Inr (Some (WrongIncrement ''holding'' (- 1)))
   \<and> placementError (WrongIncrement ''holding'' (- 1)) \<noteq> AddressOutOfRange
   \<and> effective (floatAt (- 9223372036854775808)) 0 = - 9223372036854775808
   \<and> returned (setRegister exampleBits noSpare NewServer
         [Some (floatAt (- 9223372036854775808))] ''holding'' 0) = Inl SliceBounds"
  by (simp add: run_simps effective_def)

text \<open>
  Claim C6, as the code has it. For every register category, when the entries before were
  placed and an entry's effective address is negative and at least \<open>-2^63\<close> plus the
  unit width, \<^verbatim>\<open>setRegister\<close> returns the wrong-increment error naming that address,
  which is the specification's \<open>OverlapOrNonMonotonicAddress\<close>. The code has no error
  of its own for a negative address.
\<close>

theorem negative_address_rejected:
  assumes "nm \<in> set categories"
    and "returned (setRegister f32 spare serv (map Some pre) nm addrOffset) = Inr None"
    and "effective v addrOffset < 0"
    and "- (2 ^ 63) + sizeOf nm \<le> effective v addrOffset"
  shows "returned (setRegister f32 spare serv (map Some pre @ Some v # post) nm addrOffset)
       = Inr (Some (WrongIncrement nm (effective v addrOffset)))
     \<and> placementError (WrongIncrement nm (effective v addrOffset))
       = OverlapOrNonMonotonicAddress (effective v addrOffset)"
proof -
  from assms(3,4) sizeOf_bounds [of nm]
  have "wrap64 (effective v addrOffset - sizeOf nm) = effective v addrOffset - sizeOf nm"
    by (intro wrap64_id) simp_all
  with lastAddr_nonneg [OF assms(1,2)] assms(3) sizeOf_bounds [of nm]
  have "lastAddr pre addrOffset > wrap64 (effective v addrOffset - sizeOf nm)" by simp
  from setRegister_rejects [OF assms(1,2) this] show ?thesis by simp
qed

theorem negative_address_rejected_witness:
  "''holding'' \<in> set categories
   \<and> returned (setRegister exampleBits noSpare NewServer (map Some []) ''holding'' (- 1)) = Inr None
   \<and> effective (floatAt 0) (- 1) < 0
   \<and> - (2 ^ 63) + sizeOf ''holding'' \<le> effective (floatAt 0) (- 1)
   \<and> returned (setRegister exampleBits noSpare NewServer [Some (floatAt 0)] ''holding'' (- 1))
       = Inr (Some (WrongIncrement ''holding'' (- 1)))
   \<and> placementError (WrongIncrement ''holding'' (- 1)) = OverlapOrNonMonotonicAddress (- 1)"
proof -
  have h1: "''holding'' \<in> set categories" by (simp add: categories_def)
  have h2: "returned (setRegister exampleBits noSpare NewServer (map Some []) ''holding'' (- 1)) = Inr None"
    by (simp add: setRegister_def returned_def)
  have h3: "effective (floatAt 0) (- 1) < 0" by (simp add: eff_simps)
  have h4: "- (2 ^ 63) + sizeOf ''holding'' \<le> effective (floatAt 0) (- 1)"
    by (simp add: sizeOf_def holdingSize_def eff_simps)
  from negative_address_rejected [OF h1 h2 h3 h4, of "[]"] h1 h2 h3 h4 show ?thesis
    by (simp add: eff_simps)
qed

subsection \<open>C4: the overlap check\<close>

text \<open>
  Two holding entries at the addresses 70001 and 70002 under offset -1: the first one's
  effective address 70000 is beyond the capacity 65536 of a new server's buffer and the
  slice expression panics before any error is returned. A coil entry with the effective
  address \<open>-2^63\<close>: 0 is greater than the address minus the width, yet the 64-bit
  subtraction wraps around, the check passes and the slice expression panics.
\<close>

theorem overlap_counterexample:
  "returned (setRegister exampleBits noSpare NewServer
       [Some (floatAt 70001), Some (floatAt 70002)] ''holding'' (- 1)) = Inl SliceBounds
   \<and> effective (coilAt 1 (- 9223372036854775808)) 0 = - 9223372036854775808
   \<and> (0::int) > - 9223372036854775808 - sizeOf ''coil''
   \<and> returned (setRegister exampleBits noSpare NewServer
       [Some (coilAt 1 (- 9223372036854775808))] ''coil'' 0) = Inl SliceBounds"
  by (simp add: run_simps effective_def sizeOf_def)

text \<open>
  Claim C4, as the code has it. For every register category, whenever the entries before
  were placed and an entry's effective address satisfies
  \<open>lastAddr > effectiveAddr - width\<close>, with \<open>effectiveAddr - width\<close> not below
  \<open>-2^63\<close>, \<^verbatim>\<open>setRegister\<close> returns the wrong-increment error
  (\<open>OverlapOrNonMonotonicAddress\<close>) naming that address. In particular two entries at
  the addresses \<open>A\<close> and \<open>A + width - 1\<close> make it return that error whenever the first
  one's effective address is at most the capacity of the buffer and, less the width, not
  below \<open>-2^63\<close>: the error names the first entry when its effective address is below
  the width and the second entry otherwise.
\<close>

theorem overlap_rejected:
  assumes "nm \<in> set categories"
  shows "(returned (setRegister f32 spare serv (map Some pre) nm addrOffset) = Inr None
        \<and> lastAddr pre addrOffset > effective v addrOffset - sizeOf nm
        \<and> - (2 ^ 63) \<le> effective v addrOffset - sizeOf nm \<longrightarrow>
      returned (setRegister f32 spare serv (map Some pre @ Some v # post) nm addrOffset)
        = Inr (Some (WrongIncrement nm (effective v addrOffset)))
      \<and> placementError (WrongIncrement nm (effective v addrOffset))
        = OverlapOrNonMonotonicAddress (effective v addrOffset))
   \<and> (Address e2 = Address e1 + sizeOf nm - 1
        \<and> - (2 ^ 63) \<le> effective e1 addrOffset - sizeOf nm
        \<and> effective e1 addrOffset \<le> int (length (bufferOf serv nm)) \<longrightarrow>
      returned (setRegister f32 spare serv [Some e1, Some e2] nm addrOffset)
        = Inr (Some (WrongIncrement nm
            (if effective e1 addrOffset < sizeOf nm then effective e1 addrOffset
             else effective e2 addrOffset))))"
proof (intro conjI impI)
  assume h: "returned (setRegister f32 spare serv (map Some pre) nm addrOffset) = Inr None
        \<and> lastAddr pre addrOffset > effective v addrOffset - sizeOf nm
        \<and> - (2 ^ 63) \<le> effective v addrOffset - sizeOf nm"
  with effective_upper [of v addrOffset] sizeOf_bounds [of nm]
  have "wrap64 (effective v addrOffset - sizeOf nm) = effective v addrOffset - sizeOf nm"
    by (intro wrap64_id) simp_all
  with h have "lastAddr pre addrOffset > wrap64 (effective v addrOffset - sizeOf nm)" by simp
  from setRegister_rejects [OF assms conjunct1 [OF h] this]
  show "returned (setRegister f32 spare serv (map Some pre @ Some v # post) nm addrOffset)
        = Inr (Some (WrongIncrement nm (effective v addrOffset)))" .
next
  show "placementError (WrongIncrement nm (effective v addrOffset))
        = OverlapOrNonMonotonicAddress (effective v addrOffset)" by simp
next
  assume h: "Address e2 = Address e1 + sizeOf nm - 1
        \<and> - (2 ^ 63) \<le> effective e1 addrOffset - sizeOf nm
        \<and> effective e1 addrOffset \<le> int (length (bufferOf serv nm))"
  then show "returned (setRegister f32 spare serv [Some e1, Some e2] nm addrOffset)
        = Inr (Some (WrongIncrement nm
            (if effective e1 addrOffset < sizeOf nm then effective e1 addrOffset
             else effective e2 addrOffset)))"
    by (intro two_entries_rejected [OF assms]) simp_all
qed

theorem overlap_rejected_witness:
  "''holding'' \<in> set categories
   \<and> returned (setRegister exampleBits noSpare NewServer (map Some [floatAt 101]) ''holding'' (- 1)) = Inr None
   \<and> lastAddr [floatAt 101] (- 1) > effective (floatAt 102) (- 1) - sizeOf ''holding''
   \<and> - (2 ^ 63) \<le> effective (floatAt 102) (- 1) - sizeOf ''holding''
   \<and> Address (floatAt 102) = Address (floatAt 101) + sizeOf ''holding'' - 1
   \<and> - (2 ^ 63) \<le> effective (floatAt 101) (- 1) - sizeOf ''holding''
   \<and> effective (floatAt 101) (- 1) \<le> int (length (bufferOf NewServer ''holding''))
   \<and> returned (setRegister exampleBits noSpare NewServer [Some (floatAt 101), Some (floatAt 102)]
         ''holding'' (- 1)) = Inr (Some (WrongIncrement ''holding'' 101))
   \<and> placementError (WrongIncrement ''holding'' 101) = OverlapOrNonMonotonicAddress 101"
proof -
  have h0: "''holding'' \<in> set categories" by (simp add: categories_def)
  have h1: "returned (setRegister exampleBits noSpare NewServer (map Some [floatAt 101]) ''holding'' (- 1))
      = Inr None"
    using run_holding_101 by (simp add: returned_def)
  have h2: "lastAddr [floatAt 101] (- 1) > effective (floatAt 102) (- 1) - sizeOf ''holding''"
    by (simp add: lastAddr_def sizeOf_def holdingSize_def eff_simps)
  have h3: "- (2 ^ 63) \<le> effective (floatAt 102) (- 1) - sizeOf ''holding''"
    by (simp add: sizeOf_def holdingSize_def eff_simps)
  have h4: "Address (floatAt 102) = Address (floatAt 101) + sizeOf ''holding'' - 1"
    by (simp add: sizeOf_def holdingSize_def go_int_def trunc_def)
  have h5: "- (2 ^ 63) \<le> effective (floatAt 101) (- 1) - sizeOf ''holding''"
    by (simp add: sizeOf_def holdingSize_def eff_simps)
  have h6: "effective (floatAt 101) (- 1) \<le> int (length (bufferOf NewServer ''holding''))"
    by (simp add: bufferOf_NewServer eff_simps)
  from overlap_rejected [OF h0, where ?f32.0 = exampleBits and spare = noSpare and serv = NewServer
      and pre = "[floatAt 101]" and addrOffset = "- 1" and v = "floatAt 102" and post = "[]"
      and ?e2.0 = "floatAt 102" and ?e1.0 = "floatAt 101"] h0 h1 h2 h3 h4 h5 h6
  show ?thesis by (simp add: sizeOf_def holdingSize_def eff_simps)
qed

subsection \<open>C10: the first entry\<close>

text \<open>
  A coil entry with the effective address \<open>-2^63\<close> is below the unit width, but the
  subtraction of the check wraps around and the pass panics instead of returning the
  error.
\<close>

theorem first_entry_counterexample:
  "effective (coilAt 1 (- 9223372036854775808)) 0 < sizeOf ''coil''
   \<and> returned (setRegister exampleBits noSpare NewServer
       [Some (coilAt 1 (- 9223372036854775808))] ''coil'' 0) = Inl SliceBounds"
  by (simp add: run_simps effective_def sizeOf_def)

text \<open>
  Claim C10, as the code has it. For every register category, a pass whose first entry
  has an effective address below the unit width, and not below \<open>-2^63\<close> plus the
  width, returns the wrong-increment error for that address although no entry came
  before, because \<^verbatim>\<open>prevAddr\<close> starts at 0. And no entry of a pass that succeeded has
  an effective address below the unit width.
\<close>

theorem first_entry_below_width:
  assumes "nm \<in> set categories"
  shows "(- (2 ^ 63) \<le> effective v addrOffset - sizeOf nm \<and> effective v addrOffset < sizeOf nm \<longrightarrow>
      returned (setRegister f32 spare serv (Some v # rest) nm addrOffset)
        = Inr (Some (WrongIncrement nm (effective v addrOffset))))
   \<and> (setRegister f32 spare serv registryData nm addrOffset = Inr (s', None) \<longrightarrow>
      (\<forall>e. Some e \<in> set registryData \<longrightarrow> sizeOf nm \<le> effective e addrOffset))"
proof (intro conjI impI)
  assume h: "- (2 ^ 63) \<le> effective v addrOffset - sizeOf nm \<and> effective v addrOffset < sizeOf nm"
  with sizeOf_bounds [of nm]
  have "wrap64 (effective v addrOffset - sizeOf nm) = effective v addrOffset - sizeOf nm"
    by (intro wrap64_id) simp_all
  with h have "lastAddr [] addrOffset > wrap64 (effective v addrOffset - sizeOf nm)"
    by (simp add: lastAddr_def)
  from setRegister_rejects [of nm f32 spare serv "[]" addrOffset v rest, OF assms _ this]
  show "returned (setRegister f32 spare serv (Some v # rest) nm addrOffset)
        = Inr (Some (WrongIncrement nm (effective v addrOffset)))"
    by (simp add: setRegister_Nil [OF assms] returned_def)
next
  assume ok: "setRegister f32 spare serv registryData nm addrOffset = Inr (s', None)"
  from setRegister_no_nil [OF ok] obtain es where es: "registryData = map Some es" by blast
  from setRegister_success_lower [OF assms ok [unfolded es]]
  show "\<forall>e. Some e \<in> set registryData \<longrightarrow> sizeOf nm \<le> effective e addrOffset"
    unfolding es Some_in_map by blast
qed

theorem first_entry_below_width_witness:
  "''holding'' \<in> set categories
   \<and> - (2 ^ 63) \<le> effective (floatAt 1) 0 - sizeOf ''holding''
   \<and> effective (floatAt 1) 0 < sizeOf ''holding''
   \<and> returned (setRegister exampleBits noSpare NewServer [Some (floatAt 1)] ''holding'' 0)
       = Inr (Some (WrongIncrement ''holding'' 1))
   \<and> setRegister exampleBits noSpare NewServer [Some (floatAt 101)] ''holding'' (- 1)
       = Inr (NewServer\<lparr>HoldingRegisters :=
           \<lparr>arr = replicate 100 0 @ [0x4049, 0x0E56] @ replicate 65434 0, len = 102\<rparr>\<rparr>, None)
   \<and> sizeOf ''holding'' \<le> effective (floatAt 101) (- 1)"
proof -
  have h0: "''holding'' \<in> set categories" by (simp add: categories_def)
  have h1: "- (2 ^ 63) \<le> effective (floatAt 1) 0 - sizeOf ''holding''
      \<and> effective (floatAt 1) 0 < sizeOf ''holding''"
    by (simp add: sizeOf_def holdingSize_def eff_simps)
  have h2: "setRegister exampleBits noSpare NewServer [Some (floatAt 101)] ''holding'' (- 1)
       = Inr (NewServer\<lparr>HoldingRegisters :=
           \<lparr>arr = replicate 100 0 @ [0x4049, 0x0E56] @ replicate 65434 0, len = 102\<rparr>\<rparr>, None)"
    using run_holding_101 by simp
  from first_entry_below_width [OF h0, where v = "floatAt 1" and addrOffset = 0
        and ?f32.0 = exampleBits and spare = noSpare and serv = NewServer and rest = "[]"]
    first_entry_below_width [OF h0, where addrOffset = "- 1" and registryData = "[Some (floatAt 101)]"
        and ?f32.0 = exampleBits and spare = noSpare and serv = NewServer
        and s' = "NewServer\<lparr>HoldingRegisters :=
           \<lparr>arr = replicate 100 0 @ [0x4049, 0x0E56] @ replicate 65434 0, len = 102\<rparr>\<rparr>"]
    h0 h1 h2
  show ?thesis by (simp add: sizeOf_def holdingSize_def eff_simps)
qed

subsection \<open>C1: placement of ascending entries\<close>

text \<open>
  Two coil entries with the effective addresses 1 and 2 are placed, and the byte after
  the first entry's address holds the high byte 0 of the second entry, not the low
  byte 1 of the first. A single holding entry with the effective address 1 is rejected.
  A single holding entry with the effective address 70000 panics on a new server.
\<close>

theorem placement_counterexample:
  "setRegister exampleBits noSpare NewServer [Some (coilAt 1 2), Some (coilAt 0 3)] ''coil'' (- 1)
     = Inr (NewServer\<lparr>Coils := \<lparr>arr = [0, 1, 0, 1] @ replicate 65532 0, len = 4\<rparr>\<rparr>, None)
   \<and> effective (coilAt 1 2) (- 1) = 1 \<and> effective (coilAt 0 3) (- 1) = 2
   \<and> unitsOf exampleBits ''coil'' (coilAt 1 2) = [1, 1]
   \<and> bufferOf (NewServer\<lparr>Coils := \<lparr>arr = [0, 1, 0, 1] @ replicate 65532 0, len = 4\<rparr>\<rparr>) ''coil'' ! 2 = 0
   \<and> returned (setRegister exampleBits noSpare NewServer [Some (floatAt 1)] ''holding'' 0)
       = Inr (Some (WrongIncrement ''holding'' 1))
   \<and> returned (setRegister exampleBits noSpare NewServer [Some (floatAt 70000)] ''holding'' 0)
       = Inl SliceBounds"
  by (simp add: run_simps eff_simps unitsOf_def bufferOf_def)

text \<open>
  Claim C1, as the code has it. For every register category and every list of entries
  whose effective addresses are each at least the one before plus the unit width, the
  first at least the unit width, and none above the capacity of the buffer,
  \<^verbatim>\<open>setRegister\<close> succeeds. Afterwards, for input and holding the buffer holds each
  entry's encoded words from its effective address on. For coil and discrete the buffer
  holds the high byte of each entry's word at its effective address, and the low byte
  after it unless the next entry sits at the very next address.
\<close>

theorem placement_monotonic:
  assumes "nm \<in> set categories"
    and "ascending (sizeOf nm) 0 (map (\<lambda>v. effective v addrOffset) es)"
    and "\<forall>v \<in> set es. effective v addrOffset \<le> int (length (bufferOf serv nm))"
  shows "\<exists>s'. setRegister f32 spare serv (map Some es) nm addrOffset = Inr (s', None)
     \<and> (\<forall>k < length es.
          (nm = ''input'' \<or> nm = ''holding'' \<longrightarrow>
             placedAt (bufferOf s' nm) (nat (effective (es ! k) addrOffset)) (unitsOf f32 nm (es ! k)))
        \<and> (nm = ''coil'' \<or> nm = ''discrete'' \<longrightarrow>
             placedAt (bufferOf s' nm) (nat (effective (es ! k) addrOffset))
               (take 1 (unitsOf f32 nm (es ! k)))
           \<and> ((Suc k < length es \<longrightarrow>
                  effective (es ! Suc k) addrOffset \<noteq> effective (es ! k) addrOffset + 1) \<longrightarrow>
                placedAt (bufferOf s' nm) (nat (effective (es ! k) addrOffset))
                  (unitsOf f32 nm (es ! k)))))"
proof -
  let ?eff = "\<lambda>v. effective v addrOffset"
  from setRegister_succeeds [OF assms] obtain s'
    where ok: "setRegister f32 spare serv (map Some es) nm addrOffset = Inr (s', None)" by blast
  note kept = setRegister_unit_kept [OF assms(1) ok]
  have sz: "0 \<le> sizeOf nm" using sizeOf_bounds by simp
  have gap: "\<And>k. Suc k < length es \<Longrightarrow> ?eff (es ! k) + sizeOf nm \<le> ?eff (es ! Suc k)"
  proof -
    fix k assume k: "Suc k < length es"
    with ascending_nth [OF assms(2) sz, of k "Suc k"] show "?eff (es ! k) + sizeOf nm \<le> ?eff (es ! Suc k)"
      by simp
  qed
  have "\<forall>k < length es.
          (nm = ''input'' \<or> nm = ''holding'' \<longrightarrow>
             placedAt (bufferOf s' nm) (nat (?eff (es ! k))) (unitsOf f32 nm (es ! k)))
        \<and> (nm = ''coil'' \<or> nm = ''discrete'' \<longrightarrow>
             placedAt (bufferOf s' nm) (nat (?eff (es ! k))) (take 1 (unitsOf f32 nm (es ! k)))
           \<and> ((Suc k < length es \<longrightarrow> ?eff (es ! Suc k) \<noteq> ?eff (es ! k) + 1) \<longrightarrow>
                placedAt (bufferOf s' nm) (nat (?eff (es ! k))) (unitsOf f32 nm (es ! k))))"
  proof (intro allI impI conjI)
    fix k assume k: "k < length es" and w: "nm = ''input'' \<or> nm = ''holding''"
    then have two: "sizeOf nm = 2" by (auto simp add: sizeOf_def inputSize_def holdingSize_def)
    show "placedAt (bufferOf s' nm) (nat (?eff (es ! k))) (unitsOf f32 nm (es ! k))"
      unfolding placedAt_def
    proof (intro allI impI)
      fix j assume j: "j < length (unitsOf f32 nm (es ! k))"
      with unitsOf_words_length [OF w, of f32 "es ! k"] have "j < 2" by simp
      with gap [of k] two
      have "Suc k < length es \<longrightarrow> ?eff (es ! k) + int j < ?eff (es ! Suc k)" by auto
      from kept [OF k j this]
      show "nat (?eff (es ! k)) + j < length (bufferOf s' nm)
          \<and> bufferOf s' nm ! (nat (?eff (es ! k)) + j) = unitsOf f32 nm (es ! k) ! j" .
    qed
  next
    fix k assume k: "k < length es" and b: "nm = ''coil'' \<or> nm = ''discrete''"
    then have one: "sizeOf nm = 1" by (auto simp add: sizeOf_def coilSize_def discreteSize_def)
    from gap [of k] one
    have "Suc k < length es \<longrightarrow> ?eff (es ! k) + int 0 < ?eff (es ! Suc k)" by auto
    from kept [OF k _ this] length_unitsOf_bytes [OF b, of f32 "es ! k"]
    show "placedAt (bufferOf s' nm) (nat (?eff (es ! k))) (take 1 (unitsOf f32 nm (es ! k)))"
      by (simp add: placedAt_def)
  next
    fix k assume k: "k < length es" and b: "nm = ''coil'' \<or> nm = ''discrete''"
      and free: "Suc k < length es \<longrightarrow> ?eff (es ! Suc k) \<noteq> ?eff (es ! k) + 1"
    then have one: "sizeOf nm = 1" by (auto simp add: sizeOf_def coilSize_def discreteSize_def)
    show "placedAt (bufferOf s' nm) (nat (?eff (es ! k))) (unitsOf f32 nm (es ! k))"
      unfolding placedAt_def
    proof (intro allI impI)
      fix j assume j: "j < length (unitsOf f32 nm (es ! k))"
      with length_unitsOf_bytes [OF b, of f32 "es ! k"] have "j < 2" by simp
      with gap [of k] one free
      have "Suc k < length es \<longrightarrow> ?eff (es ! k) + int j < ?eff (es ! Suc k)" by auto
      from kept [OF k j this]
      show "nat (?eff (es ! k)) + j < length (bufferOf s' nm)
          \<and> bufferOf s' nm ! (nat (?eff (es ! k)) + j) = unitsOf f32 nm (es ! k) ! j" .
    qed
  qed
  with ok show ?thesis by blast
qed

theorem placement_monotonic_witness:
  "''holding'' \<in> set categories
   \<and> ascending (sizeOf ''holding'') 0 (map (\<lambda>v. effective v (- 1)) [floatAt 101, floatAt 103])
   \<and> effective (floatAt 101) (- 1) \<le> int (length (bufferOf NewServer ''holding''))
   \<and> effective (floatAt 103) (- 1) \<le> int (length (bufferOf NewServer ''holding''))
   \<and> setRegister exampleBits noSpare NewServer (map Some [floatAt 101, floatAt 103]) ''holding'' (- 1)
       = Inr (NewServer\<lparr>HoldingRegisters :=
         \<lparr>arr = replicate 100 0 @ [0x4049, 0x0E56, 0x4049, 0x0E56] @ replicate 65432 0, len = 104\<rparr>\<rparr>, None)
   \<and> placedAt (bufferOf (NewServer\<lparr>HoldingRegisters :=
         \<lparr>arr = replicate 100 0 @ [0x4049, 0x0E56, 0x4049, 0x0E56] @ replicate 65432 0, len = 104\<rparr>\<rparr>)
         ''holding'') 100 [0x4049, 0x0E56]
   \<and> placedAt (bufferOf (NewServer\<lparr>HoldingRegisters :=
         \<lparr>arr = replicate 100 0 @ [0x4049, 0x0E56, 0x4049, 0x0E56] @ replicate 65432 0, len = 104\<rparr>\<rparr>)
         ''holding'') 102 [0x4049, 0x0E56]"
proof -
  let ?es = "[floatAt 101, floatAt 103]"
  have h0: "''holding'' \<in> set categories" by (simp add: categories_def)
  have h1: "ascending (sizeOf ''holding'') 0 (map (\<lambda>v. effective v (- 1)) ?es)"
    by (simp add: sizeOf_def holdingSize_def eff_simps)
  have h2: "\<forall>v \<in> set ?es. effective v (- 1) \<le> int (length (bufferOf NewServer ''holding''))"
    by (simp add: bufferOf_NewServer eff_simps)
  from placement_monotonic [OF h0 h1 h2, of exampleBits noSpare] obtain s' where
    ok: "setRegister exampleBits noSpare NewServer (map Some ?es) ''holding'' (- 1) = Inr (s', None)"
    and at: "\<forall>k < length ?es. placedAt (bufferOf s' ''holding'') (nat (effective (?es ! k) (- 1)))
        (unitsOf exampleBits ''holding'' (?es ! k))"
    by auto
  from ok run_holding_101_103 have s': "s' = NewServer\<lparr>HoldingRegisters :=
      \<lparr>arr = replicate 100 0 @ [0x4049, 0x0E56, 0x4049, 0x0E56] @ replicate 65432 0, len = 104\<rparr>\<rparr>"
    by simp
  from at [rule_format, of 0] at [rule_format, of 1] h0 h1 h2 ok show ?thesis
    unfolding s' by (simp add: eff_simps unitsOf_def exampleBits_def)
qed

subsection \<open>C9: what placement leaves alone\<close>

text \<open>
  Two holding entries with the effective addresses 100 and 104 on a new server: the pass
  cuts the slice from 65536 to 106 elements, so the region after the last entry is no
  longer part of the buffer that the server holds. Two coil entries of value 0 with the
  effective addresses 2 and 5: the byte at index 3, which is no entry's address and
  outside the unit width 1 of the first entry, holds 1.
\<close>

theorem placement_frame_counterexample:
  "setRegister exampleBits noSpare NewServer [Some (floatAt 101), Some (floatAt 105)] ''holding'' (- 1)
     = Inr (NewServer\<lparr>HoldingRegisters :=
        \<lparr>arr = replicate 100 0 @ [0x4049, 0x0E56, 0, 0, 0x4049, 0x0E56] @ replicate 65430 0, len = 106\<rparr>\<rparr>, None)
   \<and> lengthOf (NewServer\<lparr>HoldingRegisters :=
        \<lparr>arr = replicate 100 0 @ [0x4049, 0x0E56, 0, 0, 0x4049, 0x0E56] @ replicate 65430 0, len = 106\<rparr>\<rparr>)
        ''holding'' = 106
   \<and> lengthOf NewServer ''holding'' = 65536
   \<and> setRegister exampleBits noSpare NewServer [Some (coilAt 0 3), Some (coilAt 0 6)] ''coil'' (- 1)
     = Inr (NewServer\<lparr>Coils := \<lparr>arr = [0, 0, 0, 1, 0, 0, 1] @ replicate 65529 0, len = 7\<rparr>\<rparr>, None)
   \<and> effective (coilAt 0 3) (- 1) = 2 \<and> effective (coilAt 0 6) (- 1) = 5 \<and> sizeOf ''coil'' = 1
   \<and> bufferOf (NewServer\<lparr>Coils := \<lparr>arr = [0, 0, 0, 1, 0, 0, 1] @ replicate 65529 0, len = 7\<rparr>\<rparr>)
        ''coil'' ! 3 = 1"
  using run_holding_101_105 run_coil_3_6
  by (simp add: lengthOf_def NewServer_def eff_simps sizeOf_def coilSize_def bufferOf_def)

text \<open>
  Claim C9, as the code has it. After a pass that succeeded on a new server, the
  category's slice ends right after the units of the last entry (an empty pass leaves it
  at 65536), within a backing array that still spans at least 65536 positions. The units
  an entry writes are its one or two words for input and holding and two bytes for coil
  and discrete, so a coil or discrete entry also writes the byte after its address. Every
  position of the backing array that no entry's written units cover still holds zero:
  the gaps between the entries inside the slice, and the region after the last entry
  beyond it. A written unit that the next entry does not start at or before holds that
  unit. The buffers of the other categories keep their zeros and their length.
\<close>

theorem placement_frame:
  assumes "nm \<in> set categories"
    and "setRegister f32 spare NewServer (map Some es) nm addrOffset = Inr (s', None)"
  shows "lengthOf s' nm =
       (if es = [] then 65536
        else nat (effective (last es) addrOffset) + length (unitsOf f32 nm (last es)))
     \<and> lengthOf s' nm \<le> length (bufferOf s' nm)
     \<and> 65536 \<le> length (bufferOf s' nm)
     \<and> (\<forall>v \<in> set es. length (unitsOf f32 nm v) =
          (if nm = ''coil'' \<or> nm = ''discrete'' then 2 else length (Encode f32 v)))
     \<and> (\<forall>i < length (bufferOf s' nm).
          (\<forall>v \<in> set es. \<not> (effective v addrOffset \<le> int i
              \<and> int i < effective v addrOffset + int (length (unitsOf f32 nm v)))) \<longrightarrow>
          bufferOf s' nm ! i = 0)
     \<and> (\<forall>k < length es. \<forall>j < length (unitsOf f32 nm (es ! k)).
          (Suc k < length es \<longrightarrow>
             effective (es ! k) addrOffset + int j < effective (es ! Suc k) addrOffset) \<longrightarrow>
          bufferOf s' nm ! (nat (effective (es ! k) addrOffset) + j) = unitsOf f32 nm (es ! k) ! j)
     \<and> (\<forall>nm' \<in> set categories. nm' \<noteq> nm \<longrightarrow>
          bufferOf s' nm' = replicate 65536 0 \<and> lengthOf s' nm' = 65536)"
proof -
  have len: "lengthOf s' nm =
       (if es = [] then 65536
        else nat (effective (last es) addrOffset) + length (unitsOf f32 nm (last es)))"
  proof (cases "es = []")
    case True
    with assms have "s' = NewServer" by (simp add: setRegister_Nil)
    with True show ?thesis by (simp add: lengthOf_NewServer)
  next
    case False
    with setRegister_len [OF assms False] show ?thesis by simp
  qed
  note z = gaps_stay_zero_entries [OF assms]
  have cap: "lengthOf s' nm \<le> length (bufferOf s' nm)"
  proof (cases "es = []")
    case True
    with len z show ?thesis by simp
  next
    case False
    then have "last es \<in> set es" by simp
    with setRegister_fits [OF assms] len False show ?thesis by auto
  qed
  have units: "\<forall>v \<in> set es. length (unitsOf f32 nm v) =
          (if nm = ''coil'' \<or> nm = ''discrete'' then 2 else length (Encode f32 v))"
    by (simp add: unitsOf_def uint16ToByteSlice_def Let_def)
  have kept: "\<forall>k < length es. \<forall>j < length (unitsOf f32 nm (es ! k)).
          (Suc k < length es \<longrightarrow>
             effective (es ! k) addrOffset + int j < effective (es ! Suc k) addrOffset) \<longrightarrow>
          bufferOf s' nm ! (nat (effective (es ! k) addrOffset) + j) = unitsOf f32 nm (es ! k) ! j"
    using setRegister_unit_kept [OF assms] by blast
  have other: "\<forall>nm' \<in> set categories. nm' \<noteq> nm \<longrightarrow>
          bufferOf s' nm' = replicate 65536 0 \<and> lengthOf s' nm' = 65536"
    using z setRegister_other_length [OF assms] by (simp add: lengthOf_NewServer)
  from len cap units kept other z show ?thesis by blast
qed

theorem placement_frame_witness:
  "''holding'' \<in> set categories \<and> ''coil'' \<in> set categories
   \<and> setRegister exampleBits noSpare NewServer (map Some [floatAt 101, floatAt 105]) ''holding'' (- 1)
       = Inr (NewServer\<lparr>HoldingRegisters :=
         \<lparr>arr = replicate 100 0 @ [0x4049, 0x0E56, 0, 0, 0x4049, 0x0E56] @ replicate 65430 0, len = 106\<rparr>\<rparr>, None)
   \<and> lengthOf (NewServer\<lparr>HoldingRegisters :=
         \<lparr>arr = replicate 100 0 @ [0x4049, 0x0E56, 0, 0, 0x4049, 0x0E56] @ replicate 65430 0, len = 106\<rparr>\<rparr>)
         ''holding'' = 106
   \<and> bufferOf (NewServer\<lparr>HoldingRegisters :=
         \<lparr>arr = replicate 100 0 @ [0x4049, 0x0E56, 0, 0, 0x4049, 0x0E56] @ replicate 65430 0, len = 106\<rparr>\<rparr>)
         ''holding'' ! 103 = 0
   \<and> bufferOf (NewServer\<lparr>HoldingRegisters :=
         \<lparr>arr = replicate 100 0 @ [0x4049, 0x0E56, 0, 0, 0x4049, 0x0E56] @ replicate 65430 0, len = 106\<rparr>\<rparr>)
         ''holding'' ! 65535 = 0
   \<and> bufferOf (NewServer\<lparr>HoldingRegisters :=
         \<lparr>arr = replicate 100 0 @ [0x4049, 0x0E56, 0, 0, 0x4049, 0x0E56] @ replicate 65430 0, len = 106\<rparr>\<rparr>)
         ''coil'' = replicate 65536 0
   \<and> lengthOf (NewServer\<lparr>HoldingRegisters :=
         \<lparr>arr = replicate 100 0 @ [0x4049, 0x0E56, 0, 0, 0x4049, 0x0E56] @ replicate 65430 0, len = 106\<rparr>\<rparr>)
         ''coil'' = 65536
   \<and> setRegister exampleBits noSpare NewServer (map Some [coilAt 0 3, coilAt 0 6]) ''coil'' (- 1)
       = Inr (NewServer\<lparr>Coils := \<lparr>arr = [0, 0, 0, 1, 0, 0, 1] @ replicate 65529 0, len = 7\<rparr>\<rparr>, None)
   \<and> lengthOf (NewServer\<lparr>Coils := \<lparr>arr = [0, 0, 0, 1, 0, 0, 1] @ replicate 65529 0, len = 7\<rparr>\<rparr>)
         ''coil'' = 7
   \<and> bufferOf (NewServer\<lparr>Coils := \<lparr>arr = [0, 0, 0, 1, 0, 0, 1] @ replicate 65529 0, len = 7\<rparr>\<rparr>)
         ''coil'' ! 3 = unitsOf exampleBits ''coil'' (coilAt 0 3) ! 1
   \<and> unitsOf exampleBits ''coil'' (coilAt 0 3) ! 1 = 1
   \<and> bufferOf (NewServer\<lparr>Coils := \<lparr>arr = [0, 0, 0, 1, 0, 0, 1] @ replicate 65529 0, len = 7\<rparr>\<rparr>)
         ''coil'' ! 4 = 0"
proof -
  let ?es = "[floatAt 101, floatAt 105]"
  let ?s = "NewServer\<lparr>HoldingRegisters :=
         \<lparr>arr = replicate 100 0 @ [0x4049, 0x0E56, 0, 0, 0x4049, 0x0E56] @ replicate 65430 0, len = 106\<rparr>\<rparr>"
  let ?cs = "[coilAt 0 3, coilAt 0 6]"
  let ?c = "NewServer\<lparr>Coils := \<lparr>arr = [0, 0, 0, 1, 0, 0, 1] @ replicate 65529 0, len = 7\<rparr>\<rparr>"
  have h0: "''holding'' \<in> set categories" and c0: "''coil'' \<in> set categories"
    by (simp_all add: categories_def)
  have h1: "setRegister exampleBits noSpare NewServer (map Some ?es) ''holding'' (- 1) = Inr (?s, None)"
    using run_holding_101_105 by simp
  have c1: "setRegister exampleBits noSpare NewServer (map Some ?cs) ''coil'' (- 1) = Inr (?c, None)"
    using run_coil_3_6 by simp
  note g = placement_frame [OF h0 h1]
  note d = placement_frame [OF c0 c1]
  from g have hl: "lengthOf ?s ''holding'' = 106"
    by (simp add: eff_simps unitsOf_def Let_def)
  from g have len: "65536 \<le> length (bufferOf ?s ''holding'')" by blast
  from g have zero: "\<And>i. i < length (bufferOf ?s ''holding'') \<Longrightarrow>
      (\<forall>v \<in> set ?es. \<not> (effective v (- 1) \<le> int i
          \<and> int i < effective v (- 1) + int (length (unitsOf exampleBits ''holding'' v)))) \<Longrightarrow>
      bufferOf ?s ''holding'' ! i = 0" by blast
  from g have other: "\<forall>nm' \<in> set categories. nm' \<noteq> ''holding'' \<longrightarrow>
      bufferOf ?s nm' = replicate 65536 0 \<and> lengthOf ?s nm' = 65536"
    by blast
  have a: "bufferOf ?s ''holding'' ! 103 = 0"
    using len by (intro zero) (simp_all add: eff_simps unitsOf_def Let_def)
  have b: "bufferOf ?s ''holding'' ! 65535 = 0"
    using len by (intro zero) (simp_all add: eff_simps unitsOf_def Let_def)
  from other have c: "bufferOf ?s ''coil'' = replicate 65536 0 \<and> lengthOf ?s ''coil'' = 65536"
    by (simp add: categories_def)
  from d have cl: "lengthOf ?c ''coil'' = 7"
    by (simp add: eff_simps unitsOf_def uint16ToByteSlice_def Let_def)
  from d have clen: "65536 \<le> length (bufferOf ?c ''coil'')" by blast
  from d have kept: "\<And>k j. k < length ?cs \<Longrightarrow> j < length (unitsOf exampleBits ''coil'' (?cs ! k)) \<Longrightarrow>
      (Suc k < length ?cs \<longrightarrow> effective (?cs ! k) (- 1) + int j < effective (?cs ! Suc k) (- 1)) \<Longrightarrow>
      bufferOf ?c ''coil'' ! (nat (effective (?cs ! k) (- 1)) + j) = unitsOf exampleBits ''coil'' (?cs ! k) ! j"
    by blast
  from d have czero: "\<And>i. i < length (bufferOf ?c ''coil'') \<Longrightarrow>
      (\<forall>v \<in> set ?cs. \<not> (effective v (- 1) \<le> int i
          \<and> int i < effective v (- 1) + int (length (unitsOf exampleBits ''coil'' v)))) \<Longrightarrow>
      bufferOf ?c ''coil'' ! i = 0" by blast
  have stray: "bufferOf ?c ''coil'' ! 3 = unitsOf exampleBits ''coil'' (coilAt 0 3) ! 1"
    using kept [of 0 1] by (simp add: eff_simps unitsOf_def uint16ToByteSlice_def Let_def)
  have low: "unitsOf exampleBits ''coil'' (coilAt 0 3) ! 1 = 1"
    by (simp add: unitsOf_def uint16ToByteSlice_def go_uint16_def trunc_def Let_def)
  have gap: "bufferOf ?c ''coil'' ! 4 = 0"
    using clen by (intro czero) (simp_all add: eff_simps unitsOf_def uint16ToByteSlice_def Let_def)
  from h0 c0 h1 hl a b c c1 cl stray low gap show ?thesis by blast
qed

subsection \<open>C5: the offset\<close>



end
